theory Spec2Isabelle
  imports Main "HOL-Library.Word"
begin

unbundle bit_operations_syntax

section \<open>Data model\<close>

text \<open>
  A \<^verbatim>\<open>Uint8Array\<close> is a list of 8-bit words; a JavaScript string is the list of its
  UTF-16 code units. Results of the 32-bit bitwise operators are 32-bit words, read as
  signed with \<open>sint\<close> where the source uses them as numbers.
\<close>

type_synonym byte = "8 word"
type_synonym bytes = "byte list"
type_synonym u32 = "32 word"
type_synonym jsstring = "16 word list"

text \<open>\<^verbatim>\<open>DataView.setUint32(pos, v, false)\<close>: the four bytes of \<open>v\<close>, most significant first.\<close>

definition setUint32 :: "u32 \<Rightarrow> bytes" where
  "setUint32 v = [ucast (drop_bit 24 v), ucast (drop_bit 16 v), ucast (drop_bit 8 v), ucast v]"

section \<open>Platform text encoding\<close>

text \<open>
  \<^verbatim>\<open>new TextEncoder().encode(s)\<close>: UTF-8 of the string's scalar values; a surrogate
  pair is one scalar value, an unpaired surrogate is replaced by U+FFFD.
\<close>

definition utf8_replacement :: bytes where
  "utf8_replacement = [0xEF, 0xBF, 0xBD]"

definition utf8_two :: "16 word \<Rightarrow> bytes" where
  "utf8_two c = [0xC0 OR ucast (drop_bit 6 c), 0x80 OR ucast (c AND 0x3F)]"

definition utf8_three :: "16 word \<Rightarrow> bytes" where
  "utf8_three c =
     [0xE0 OR ucast (drop_bit 12 c), 0x80 OR ucast (drop_bit 6 c AND 0x3F), 0x80 OR ucast (c AND 0x3F)]"

definition surrogate_pair :: "16 word \<Rightarrow> 16 word \<Rightarrow> u32" where
  "surrogate_pair hi lo = 0x10000 + push_bit 10 (ucast (hi - 0xD800)) + ucast (lo - 0xDC00)"

definition utf8_four :: "u32 \<Rightarrow> bytes" where
  "utf8_four cp =
     [0xF0 OR ucast (drop_bit 18 cp), 0x80 OR ucast (drop_bit 12 cp AND 0x3F),
      0x80 OR ucast (drop_bit 6 cp AND 0x3F), 0x80 OR ucast (cp AND 0x3F)]"

fun utf8_encode :: "jsstring \<Rightarrow> bytes" where
  "utf8_encode [] = []"
| "utf8_encode (c # cs) =
     (if c < 0x80 then ucast c # utf8_encode cs
      else if c < 0x800 then utf8_two c @ utf8_encode cs
      else if c < 0xD800 \<or> 0xE000 \<le> c then utf8_three c @ utf8_encode cs
      else if c < 0xDC00 then
        (case cs of
           [] \<Rightarrow> utf8_replacement
         | d # ds \<Rightarrow>
             if 0xDC00 \<le> d \<and> d < 0xE000 then utf8_four (surrogate_pair c d) @ utf8_encode ds
             else utf8_replacement @ utf8_encode cs)
      else utf8_replacement @ utf8_encode cs)"

text \<open>
  \<^verbatim>\<open>new TextDecoder('latin1').decode(b)\<close>: the label \<^verbatim>\<open>latin1\<close> selects windows-1252,
  which differs from ISO 8859-1 on the bytes 0x80 to 0x9F.
\<close>

definition windows1252_high :: "16 word list" where
  "windows1252_high =
     [0x20AC, 0x0081, 0x201A, 0x0192, 0x201E, 0x2026, 0x2020, 0x2021,
      0x02C6, 0x2030, 0x0160, 0x2039, 0x0152, 0x008D, 0x017D, 0x008F,
      0x0090, 0x2018, 0x2019, 0x201C, 0x201D, 0x2022, 0x2013, 0x2014,
      0x02DC, 0x2122, 0x0161, 0x203A, 0x0153, 0x009D, 0x017E, 0x0178]"

definition latin1_decode_byte :: "byte \<Rightarrow> 16 word" where
  "latin1_decode_byte b =
     (if 0x80 \<le> b \<and> b < 0xA0 then windows1252_high ! (unat b - 0x80) else ucast b)"

definition latin1_decode :: "bytes \<Rightarrow> jsstring" where
  "latin1_decode bs = map latin1_decode_byte bs"

text \<open>
  \<^verbatim>\<open>new TextDecoder('utf-8').decode(b)\<close>, not fatal: every malformed sequence gives one
  U+FFFD, a leading byte order mark is dropped, and a scalar value above U+FFFF becomes a
  surrogate pair. \<open>Pending cp seen needed lower upper\<close> is the decoder inside a
  multi-byte sequence.
\<close>

datatype utf8_state = Fresh | Pending u32 nat nat byte byte

definition codeUnits :: "u32 \<Rightarrow> jsstring" where
  "codeUnits cp =
     (if cp < 0x10000 then [ucast cp]
      else [0xD800 + ucast (drop_bit 10 (cp - 0x10000)), 0xDC00 + ucast ((cp - 0x10000) AND 0x3FF)])"

definition utf8_lead :: "byte \<Rightarrow> jsstring \<times> utf8_state" where
  "utf8_lead b =
     (if b \<le> 0x7F then ([ucast b], Fresh)
      else if 0xC2 \<le> b \<and> b \<le> 0xDF then ([], Pending (ucast (b AND 0x1F)) 0 1 0x80 0xBF)
      else if 0xE0 \<le> b \<and> b \<le> 0xEF then
        ([], Pending (ucast (b AND 0xF)) 0 2 (if b = 0xE0 then 0xA0 else 0x80)
               (if b = 0xED then 0x9F else 0xBF))
      else if 0xF0 \<le> b \<and> b \<le> 0xF4 then
        ([], Pending (ucast (b AND 0x7)) 0 3 (if b = 0xF0 then 0x90 else 0x80)
               (if b = 0xF4 then 0x8F else 0xBF))
      else ([0xFFFD], Fresh))"

fun utf8_run :: "utf8_state \<Rightarrow> bytes \<Rightarrow> jsstring" where
  "utf8_run Fresh [] = []"
| "utf8_run (Pending cp seen needed lower upper) [] = [0xFFFD]"
| "utf8_run Fresh (b # bs) = fst (utf8_lead b) @ utf8_run (snd (utf8_lead b)) bs"
| "utf8_run (Pending cp seen needed lower upper) (b # bs) =
     (if b < lower \<or> upper < b then
        0xFFFD # fst (utf8_lead b) @ utf8_run (snd (utf8_lead b)) bs
      else
        (let cp' = push_bit 6 cp OR ucast (b AND 0x3F)
         in if Suc seen \<noteq> needed then utf8_run (Pending cp' (Suc seen) needed 0x80 0xBF) bs
            else codeUnits cp' @ utf8_run Fresh bs))"

definition utf8_decode :: "bytes \<Rightarrow> jsstring" where
  "utf8_decode bs = utf8_run Fresh (if take 3 bs = [0xEF, 0xBB, 0xBF] then drop 3 bs else bs)"

section \<open>CRC32\<close>

text \<open>
  \<^verbatim>\<open>calculateCRC\<close>: the inner loop body is \<open>crcShift\<close>, run eight times per byte after
  the byte is XORed into the register.
\<close>

definition crcShift :: "u32 \<Rightarrow> u32" where
  "crcShift crc = drop_bit 1 crc XOR (if crc AND 1 \<noteq> 0 then 0xEDB88320 else 0)"

definition crcByte :: "u32 \<Rightarrow> byte \<Rightarrow> u32" where
  "crcByte crc b = (crcShift ^^ 8) (crc XOR ucast b)"

definition calculateCRC :: "bytes \<Rightarrow> u32" where
  "calculateCRC data = foldl crcByte 0xFFFFFFFF data XOR 0xFFFFFFFF"

text \<open>
  The standard CRC32 as the PNG specification gives it: a table of the 256 byte
  remainders for the reversed polynomial 0xEDB88320, a register seeded with 0xFFFFFFFF
  and updated by one table lookup per byte, and a final XOR with 0xFFFFFFFF.
\<close>

definition crc_table_entry :: "u32 \<Rightarrow> u32" where
  "crc_table_entry n =
     ((\<lambda>c. if c AND 1 \<noteq> 0 then 0xEDB88320 XOR drop_bit 1 c else drop_bit 1 c) ^^ 8) n"

definition update_crc :: "u32 \<Rightarrow> byte \<Rightarrow> u32" where
  "update_crc c b = crc_table_entry ((c XOR ucast b) AND 0xFF) XOR drop_bit 8 c"

definition crc32_standard :: "bytes \<Rightarrow> u32" where
  "crc32_standard buf = foldl update_crc 0xFFFFFFFF buf XOR 0xFFFFFFFF"

section \<open>Building a tEXt chunk\<close>

definition type_tEXt :: bytes where
  "type_tEXt = [116, 69, 88, 116]"

definition textChunkData :: "jsstring \<Rightarrow> jsstring \<Rightarrow> bytes" where
  "textChunkData keyword text = utf8_encode keyword @ [0] @ utf8_encode text"

definition createTextChunk :: "jsstring \<Rightarrow> jsstring \<Rightarrow> bytes" where
  "createTextChunk keyword text =
     (let chunkData = textChunkData keyword text;
          front = setUint32 (of_nat (length chunkData)) @ type_tEXt @ chunkData;
          crc = calculateCRC (take (8 + length chunkData - 4) (drop 4 front))
      in front @ setUint32 crc)"

section \<open>Reading a byte buffer\<close>

text \<open>
  \<^verbatim>\<open>bytes[i]\<close> on a \<^verbatim>\<open>Uint8Array\<close>: the byte, or \<^verbatim>\<open>undefined\<close> (here \<open>None\<close>) when
  \<open>i\<close> is negative or past the end. Offsets are JavaScript numbers holding integers.
\<close>

definition byteAt :: "bytes \<Rightarrow> int \<Rightarrow> byte option" where
  "byteAt bs i = (if 0 \<le> i \<and> i < int (length bs) then Some (bs ! nat i) else None)"

text \<open>The operand conversion of \<^verbatim>\<open><<\<close> and \<^verbatim>\<open>|\<close>: \<^verbatim>\<open>undefined\<close> becomes 0.\<close>

definition toInt32 :: "byte option \<Rightarrow> u32" where
  "toInt32 v = (case v of None \<Rightarrow> 0 | Some b \<Rightarrow> ucast b)"

text \<open>\<^verbatim>\<open>String.fromCharCode(v)\<close> for one argument: \<^verbatim>\<open>undefined\<close> gives the code unit 0.\<close>

definition fromCharCode :: "byte option \<Rightarrow> 16 word" where
  "fromCharCode v = (case v of None \<Rightarrow> 0 | Some b \<Rightarrow> ucast b)"

text \<open>
  \<^verbatim>\<open>(bytes[o] << 24) | (bytes[o + 1] << 16) | (bytes[o + 2] << 8) | bytes[o + 3]\<close>: a signed
  32-bit result.
\<close>

definition readLength :: "bytes \<Rightarrow> int \<Rightarrow> int" where
  "readLength bs off =
     sint (push_bit 24 (toInt32 (byteAt bs off)) OR push_bit 16 (toInt32 (byteAt bs (off + 1)))
           OR push_bit 8 (toInt32 (byteAt bs (off + 2))) OR toInt32 (byteAt bs (off + 3)))"

definition readType :: "bytes \<Rightarrow> int \<Rightarrow> jsstring" where
  "readType bs off =
     [fromCharCode (byteAt bs off), fromCharCode (byteAt bs (off + 1)),
      fromCharCode (byteAt bs (off + 2)), fromCharCode (byteAt bs (off + 3))]"

definition name_tEXt :: jsstring where "name_tEXt = [116, 69, 88, 116]"
definition name_iTXt :: jsstring where "name_iTXt = [105, 84, 88, 116]"
definition name_IEND :: jsstring where "name_IEND = [73, 69, 78, 68]"
definition name_IDAT :: jsstring where "name_IDAT = [73, 68, 65, 84]"

text \<open>
  \<^verbatim>\<open>Uint8Array.prototype.slice(start, end)\<close>: a negative index counts from the end, and
  both indices are clamped to the buffer.
\<close>

definition relativeIndex :: "nat \<Rightarrow> int \<Rightarrow> nat" where
  "relativeIndex len k = (if k < 0 then nat (max (int len + k) 0) else min (nat k) len)"

definition u8slice :: "bytes \<Rightarrow> int \<Rightarrow> int \<Rightarrow> bytes" where
  "u8slice bs start fin =
     (let a = relativeIndex (length bs) start; b = relativeIndex (length bs) fin
      in take (b - a) (drop a bs))"

definition u8sliceFrom :: "bytes \<Rightarrow> int \<Rightarrow> bytes" where
  "u8sliceFrom bs start = drop (relativeIndex (length bs) start) bs"

text \<open>
  \<^verbatim>\<open>target.set(source, offset)\<close> on typed arrays: a \<^verbatim>\<open>RangeError\<close> when the offset is
  negative or the source does not fit.
\<close>

datatype error = RangeError | LibraryError

definition u8set :: "bytes \<Rightarrow> bytes \<Rightarrow> int \<Rightarrow> error + bytes" where
  "u8set target source off =
     (if off < 0 \<or> int (length target) < int (length source) + off then Inl RangeError
      else Inr (take (nat off) target @ source @ drop (nat off + length source) target))"

section \<open>The metadata object\<close>

text \<open>
  The object \<^verbatim>\<open>metadata\<close> is the list of its own properties. \<^verbatim>\<open>metadata[k] = v\<close>
  replaces the value of an existing key in place and appends a new key; on an object
  literal the key \<^verbatim>\<open>__proto__\<close> is the prototype accessor, which ignores a string.
\<close>

type_synonym textObject = "(jsstring \<times> jsstring) list"

definition proto_key :: jsstring where
  "proto_key = [95, 95, 112, 114, 111, 116, 111, 95, 95]"

fun assign :: "jsstring \<Rightarrow> jsstring \<Rightarrow> textObject \<Rightarrow> textObject" where
  "assign k v [] = [(k, v)]"
| "assign k v (p # m) = (if fst p = k then (k, v) # m else p # assign k v m)"

definition setProperty :: "textObject \<Rightarrow> jsstring \<Rightarrow> jsstring \<Rightarrow> textObject" where
  "setProperty m k v = (if k = proto_key then m else assign k v m)"

section \<open>extractPngMetadata\<close>

datatype image_format = Jpeg | Png

datatype exifval = EString string | ENumber int | EObject

type_synonym exifData = "(string \<times> exifval) list"

text \<open>The three module variables of \<^verbatim>\<open>image-exif.js\<close>.\<close>

record metadata_store =
  originalExifData :: "exifData option"
  originalPngMetadata :: "textObject option"
  originalImageFormat :: image_format

text \<open>
  A run of \<^verbatim>\<open>while (i < chunkData.length && chunkData[i] !== 0)\<close>: the bytes from
  index \<open>i\<close> up to the next zero byte or the end. The first run is the keyword, the
  later ones only advance \<open>i\<close>.
\<close>

definition nonNullRun :: "bytes \<Rightarrow> nat \<Rightarrow> bytes" where
  "nonNullRun chunkData i = takeWhile (\<lambda>b. b \<noteq> 0) (drop i chunkData)"

text \<open>
  The body of \<^verbatim>\<open>if (type === 'tEXt' || type === 'iTXt')\<close>: the keyword and the text.
\<close>

definition readTextChunk :: "jsstring \<Rightarrow> bytes \<Rightarrow> jsstring \<times> jsstring" where
  "readTextChunk ty chunkData =
     (let keyword = map (\<lambda>b. fromCharCode (Some b)) (nonNullRun chunkData 0);
          i = length (nonNullRun chunkData 0);
          i = i + 1
      in if ty = name_tEXt then (keyword, latin1_decode (u8sliceFrom chunkData (int i)))
         else
           (let i = i + 1;
                i = i + 1;
                i = i + length (nonNullRun chunkData i);
                i = i + 1;
                i = i + length (nonNullRun chunkData i);
                i = i + 1
            in (keyword, utf8_decode (u8sliceFrom chunkData (int i)))))"

text \<open>
  One iteration of the chunk walk: \<open>Inl\<close> is the state for the next iteration,
  \<open>Inr\<close> the \<^verbatim>\<open>break\<close> at IEND.
\<close>

definition walkStep ::
  "bytes \<Rightarrow> int \<Rightarrow> textObject \<Rightarrow> (int \<times> textObject) + textObject" where
  "walkStep bs offset0 metadata =
     (let len = readLength bs offset0;
          offset1 = offset0 + 4;
          ty = readType bs offset1;
          offset2 = offset1 + 4;
          metadata' =
            (if ty = name_tEXt \<or> ty = name_iTXt then
               (let chunkData = u8slice bs offset2 (offset2 + len);
                    kt = readTextChunk ty chunkData
                in setProperty metadata (fst kt) (snd kt))
             else metadata);
          offset3 = offset2 + (len + 4)
      in if ty = name_IEND then Inr metadata' else Inl (offset3, metadata'))"

text \<open>
  \<^verbatim>\<open>while (offset < bytes.length)\<close>. The loop has no variant, so the walk is a partial
  function: \<open>None\<close> means that it does not return.
\<close>

partial_function (option) chunkWalk ::
  "bytes \<Rightarrow> int \<Rightarrow> textObject \<Rightarrow> textObject option" where
  "chunkWalk bs offset metadata =
     (if offset < int (length bs) then
        (case walkStep bs offset metadata of
           Inl next \<Rightarrow> chunkWalk bs (fst next) (snd next)
         | Inr metadata' \<Rightarrow> Some metadata')
      else Some metadata)"

declare chunkWalk.simps [code]

text \<open>
  The result is the returned value (\<open>None\<close> inside is \<^verbatim>\<open>null\<close>) and the store, whose
  format variable the function assigns. Nothing in the \<^verbatim>\<open>try\<close> block throws on a byte
  buffer, so the \<^verbatim>\<open>catch\<close> branch has no counterpart.
\<close>

definition extractPngMetadata ::
  "bytes \<Rightarrow> metadata_store \<Rightarrow> (textObject option \<times> metadata_store) option" where
  "extractPngMetadata bs store =
     (if byteAt bs 0 \<noteq> Some 0x89 \<or> byteAt bs 1 \<noteq> Some 0x50 \<or> byteAt bs 2 \<noteq> Some 0x4E
         \<or> byteAt bs 3 \<noteq> Some 0x47
      then Some (None, store\<lparr>originalImageFormat := Jpeg\<rparr>)
      else
        (case chunkWalk bs 8 [] of
           None \<Rightarrow> None
         | Some metadata \<Rightarrow>
             Some (if metadata \<noteq> [] then Some metadata else None,
                   store\<lparr>originalImageFormat := Png\<rparr>)))"

section \<open>injectPngMetadata\<close>

text \<open>One iteration of the scan for the first IDAT header; \<open>Inr\<close> is the \<^verbatim>\<open>break\<close>.\<close>

definition idatStep :: "bytes \<Rightarrow> int \<Rightarrow> int + int" where
  "idatStep bs idatOffset =
     (if readType bs (idatOffset + 4) = name_IDAT then Inr idatOffset
      else Inl (idatOffset + 4 + 4 + readLength bs idatOffset + 4))"

partial_function (option) findIdat :: "bytes \<Rightarrow> int \<Rightarrow> int option" where
  "findIdat bs idatOffset =
     (if idatOffset < int (length bs) then
        (case idatStep bs idatOffset of
           Inl next \<Rightarrow> findIdat bs next
         | Inr found \<Rightarrow> Some found)
      else Some idatOffset)"

declare findIdat.simps [code]

text \<open>The loop \<^verbatim>\<open>for (const chunk of textChunks)\<close> writing into \<^verbatim>\<open>newBytes\<close>.\<close>

fun setChunks :: "bytes \<Rightarrow> bytes list \<Rightarrow> int \<Rightarrow> error + (bytes \<times> int)" where
  "setChunks newBytes [] offset = Inr (newBytes, offset)"
| "setChunks newBytes (chunk # chunks) offset =
     (case u8set newBytes chunk offset of
        Inl e \<Rightarrow> Inl e
      | Inr newBytes' \<Rightarrow> setChunks newBytes' chunks (offset + int (length chunk)))"

text \<open>The part of the \<^verbatim>\<open>try\<close> block after the scan, from \<^verbatim>\<open>const textChunks = []\<close> on.\<close>

definition buildPng :: "bytes \<Rightarrow> int \<Rightarrow> textObject \<Rightarrow> error + bytes" where
  "buildPng bs idatOffset metadata =
     (let textChunks = map (\<lambda>entry. createTextChunk (fst entry) (snd entry)) metadata;
          totalTextLength = foldl (\<lambda>sum chunk. sum + length chunk) 0 textChunks;
          newBytes = replicate (length bs + totalTextLength) 0
      in case u8set newBytes (u8slice bs 0 idatOffset) 0 of
           Inl e \<Rightarrow> Inl e
         | Inr newBytes1 \<Rightarrow>
             (case setChunks newBytes1 textChunks idatOffset of
                Inl e \<Rightarrow> Inl e
              | Inr filled \<Rightarrow> u8set (fst filled) (u8sliceFrom bs idatOffset) (snd filled)))"

text \<open>
  The \<^verbatim>\<open>try\<close> block: \<open>None\<close> when the scan does not return, otherwise the exception
  or the new buffer.
\<close>

definition injectBody :: "bytes \<Rightarrow> textObject \<Rightarrow> (error + bytes) option" where
  "injectBody bs metadata =
     (case findIdat bs 8 of
        None \<Rightarrow> None
      | Some idatOffset \<Rightarrow> Some (buildPng bs idatOffset metadata))"

text \<open>
  \<open>metadata = None\<close> is a \<^verbatim>\<open>null\<close> argument; the list of a present object is what
  \<^verbatim>\<open>Object.entries\<close> enumerates. The blob is its bytes.
\<close>

definition injectPngMetadata :: "bytes \<Rightarrow> textObject option \<Rightarrow> bytes option" where
  "injectPngMetadata pngBlob metadata =
     (case metadata of
        None \<Rightarrow> Some pngBlob
      | Some entries \<Rightarrow>
          if entries = [] then Some pngBlob
          else
            (case injectBody pngBlob entries of
               None \<Rightarrow> None
             | Some (Inl e) \<Rightarrow> Some pngBlob
             | Some (Inr newBytes) \<Rightarrow> Some newBytes))"

section \<open>injectExifToDataUrl\<close>

text \<open>
  The external library \<^verbatim>\<open>piexif\<close> is a parameter: \<open>None\<close> when
  \<^verbatim>\<open>typeof piexif === 'undefined'\<close>, otherwise its two functions, each of which may
  throw. Its tag identifiers are the constructors of \<open>ifd_tag\<close>.
\<close>

datatype ifd_tag =
    ImageIFD_Make | ImageIFD_Model | ImageIFD_Software | ImageIFD_DateTime
  | ImageIFD_Artist | ImageIFD_Copyright
  | ExifIFD_DateTimeOriginal | ExifIFD_DateTimeDigitized | ExifIFD_ExposureTime
  | ExifIFD_FNumber | ExifIFD_ISOSpeedRatings | ExifIFD_FocalLength | ExifIFD_LensModel
  | GPSIFD_GPSLatitude | GPSIFD_GPSLongitude

text \<open>
  \<^verbatim>\<open>exifObj\<close>: the groups \<^verbatim>\<open>Interop\<close> and \<^verbatim>\<open>1st\<close> stay empty and \<^verbatim>\<open>thumbnail\<close> stays
  \<^verbatim>\<open>null\<close>, so only the three groups that are written to are fields.
\<close>

record exifObj =
  ifd_0th :: "(ifd_tag \<times> exifval) list"
  ifd_Exif :: "(ifd_tag \<times> exifval) list"
  ifd_GPS :: "(ifd_tag \<times> exifval) list"

record piexif =
  piexif_dump :: "exifObj \<Rightarrow> error + string"
  piexif_insert :: "string \<Rightarrow> string \<Rightarrow> error + string"

text \<open>
  \<^verbatim>\<open>if (exifData.Name)\<close>: a missing property, the empty string and the number 0 are
  falsy, every object is truthy.
\<close>

fun truthy :: "exifval option \<Rightarrow> bool" where
  "truthy None = False"
| "truthy (Some (EString s)) = (s \<noteq> [])"
| "truthy (Some (ENumber n)) = (n \<noteq> 0)"
| "truthy (Some EObject) = True"

text \<open>\<^verbatim>\<open>if (exifData.Name) ifd[tag] = exifData.Name\<close>\<close>

definition copyTag :: "exifData \<Rightarrow> string \<Rightarrow> ifd_tag \<Rightarrow> (ifd_tag \<times> exifval) list \<Rightarrow> (ifd_tag \<times> exifval) list" where
  "copyTag exifData name tag ifd =
     (case map_of exifData name of
        None \<Rightarrow> ifd
      | Some v \<Rightarrow> if truthy (Some v) then ifd @ [(tag, v)] else ifd)"

definition buildExifObj :: "exifData \<Rightarrow> exifObj" where
  "buildExifObj exifData =
     \<lparr>ifd_0th =
        (copyTag exifData ''Copyright'' ImageIFD_Copyright
         \<circ> copyTag exifData ''Artist'' ImageIFD_Artist
         \<circ> copyTag exifData ''DateTime'' ImageIFD_DateTime
         \<circ> copyTag exifData ''Software'' ImageIFD_Software
         \<circ> copyTag exifData ''Model'' ImageIFD_Model
         \<circ> copyTag exifData ''Make'' ImageIFD_Make) [],
      ifd_Exif =
        (copyTag exifData ''LensModel'' ExifIFD_LensModel
         \<circ> copyTag exifData ''FocalLength'' ExifIFD_FocalLength
         \<circ> copyTag exifData ''ISO'' ExifIFD_ISOSpeedRatings
         \<circ> copyTag exifData ''FNumber'' ExifIFD_FNumber
         \<circ> copyTag exifData ''ExposureTime'' ExifIFD_ExposureTime
         \<circ> copyTag exifData ''DateTimeDigitized'' ExifIFD_DateTimeDigitized
         \<circ> copyTag exifData ''DateTimeOriginal'' ExifIFD_DateTimeOriginal) [],
      ifd_GPS =
        (copyTag exifData ''GPSLongitude'' GPSIFD_GPSLongitude
         \<circ> copyTag exifData ''GPSLatitude'' GPSIFD_GPSLatitude) []\<rparr>"

text \<open>The \<^verbatim>\<open>try\<close> block: the exception of the library, or the new data URL.\<close>

definition exifBody :: "piexif \<Rightarrow> string \<Rightarrow> exifData \<Rightarrow> error + string" where
  "exifBody lib dataUrl exifData =
     (case piexif_dump lib (buildExifObj exifData) of
        Inl e \<Rightarrow> Inl e
      | Inr exifBytes \<Rightarrow> piexif_insert lib exifBytes dataUrl)"

text \<open>\<open>exifData = None\<close> is a \<^verbatim>\<open>null\<close> argument; an object, also an empty one, is truthy.\<close>

definition injectExifToDataUrl :: "piexif option \<Rightarrow> string \<Rightarrow> exifData option \<Rightarrow> string" where
  "injectExifToDataUrl lib dataUrl exifData =
     (case exifData of
        None \<Rightarrow> dataUrl
      | Some tags \<Rightarrow>
          (case lib of
             None \<Rightarrow> dataUrl
           | Some piexif \<Rightarrow>
               (case exifBody piexif dataUrl tags of
                  Inl e \<Rightarrow> dataUrl
                | Inr newDataUrl \<Rightarrow> newDataUrl)))"

text \<open>
  A library value on which the \<^verbatim>\<open>catch\<close> of the bridge can be run: its \<^verbatim>\<open>insert\<close>
  refuses what it is given, as the library does with data that is not a JPEG. It says
  nothing about what the library returns for a JPEG.
\<close>

definition sample_dump :: "exifObj \<Rightarrow> error + string" where
  "sample_dump obj = Inr ''Exif''"

definition sample_insert :: "string \<Rightarrow> string \<Rightarrow> error + string" where
  "sample_insert exifBytes dataUrl = Inl LibraryError"

definition sample_piexif :: piexif where
  "sample_piexif = \<lparr>piexif_dump = sample_dump, piexif_insert = sample_insert\<rparr>"

section \<open>The orchestrator\<close>

text \<open>
  The page as \<^verbatim>\<open>image-handler.js\<close> sees it: the metadata store, the element
  \<^verbatim>\<open>display-img\<close> (its \<^verbatim>\<open>src\<close> and its \<^verbatim>\<open>onload\<close> handler), the selected auto-action, the
  number of runs of the metadata handler that are suspended at
  \<^verbatim>\<open>await extractExifData(img)\<close>, the callbacks registered with \<^verbatim>\<open>requestAnimationFrame\<close>
  and not yet run, the blob URLs created and not yet revoked, and a log of what
  happened. The element is the one that both the document
  and \<^verbatim>\<open>DOM_CACHE\<close> know under that id. Style and class changes are left out.
\<close>

datatype auto_action = ActionNone | ActionEncrypt | ActionDecrypt

datatype transform = EncryptAndDisplay | DecryptAndDisplay

text \<open>
  The closures assigned to \<^verbatim>\<open>img.onload\<close>: the one of the metadata branch, and the
  one of the branch without metadata with the transform it starts.
\<close>

datatype onload_handler = MetadataOnload | AutoOnload transform

datatype event =
    Revoked string
  | PngTextExtracted
  | SrcAssigned string
  | DecodeComplete
  | ExifExtracted
  | TransformDispatched transform
  | TransformInvoked transform

record img_element =
  src :: string
  onload :: "onload_handler option"

record page =
  store :: metadata_store
  displayImg :: "img_element option"
  autoAction :: auto_action
  awaitingExif :: nat
  frameCallbacks :: "transform list"
  liveUrls :: "string list"
  log :: "event list"

definition resetMetadata :: "metadata_store \<Rightarrow> metadata_store" where
  "resetMetadata s =
     s\<lparr>originalExifData := None, originalPngMetadata := None, originalImageFormat := Jpeg\<rparr>"

definition createObjectURL :: "string \<Rightarrow> page \<Rightarrow> page" where
  "createObjectURL url p = p\<lparr>liveUrls := liveUrls p @ [url]\<rparr>"

definition revokeObjectURL :: "string \<Rightarrow> page \<Rightarrow> page" where
  "revokeObjectURL url p =
     p\<lparr>liveUrls := removeAll url (liveUrls p), log := log p @ [Revoked url]\<rparr>"

text \<open>
  \<^verbatim>\<open>rebuildImageDOM\<close>: reuses the element when there is one, creates it otherwise, and
  in both cases runs \<^verbatim>\<open>img.src = ""\<close>. What \<^verbatim>\<open>img.src\<close> then reads is the empty string or,
  in some browsers, the address of the page; the model keeps the empty string, and
  neither starts with \<^verbatim>\<open>blob:\<close> on a page that is not itself served from a blob URL.
\<close>

definition rebuildImageDOM :: "page \<Rightarrow> page" where
  "rebuildImageDOM p =
     (let img = (case displayImg p of None \<Rightarrow> \<lparr>src = [], onload = None\<rparr> | Some e \<Rightarrow> e)
      in p\<lparr>displayImg := Some (img\<lparr>src := []\<rparr>)\<rparr>)"

text \<open>
  \<^verbatim>\<open>setSrc\<close> up to its three-way branch: reset of the store, the element looked up or
  rebuilt, the old blob URL revoked, the old handler cleared.
\<close>

definition setSrcPrologue :: "page \<Rightarrow> page" where
  "setSrcPrologue p0 =
     (let p1 = p0\<lparr>store := resetMetadata (store p0)\<rparr>;
          p2 = (if displayImg p1 = None then rebuildImageDOM p1 else p1)
      in case displayImg p2 of
           None \<Rightarrow> p2
         | Some img \<Rightarrow>
             (let p3 = (if src img \<noteq> [] \<and> take 5 (src img) = ''blob:''
                        then revokeObjectURL (src img) p2 else p2)
              in p3\<lparr>displayImg := Some (img\<lparr>onload := None\<rparr>)\<rparr>))"

text \<open>\<^verbatim>\<open>img.onload = h\<close> (or no assignment for \<open>None\<close>) followed by \<^verbatim>\<open>img.src = src\<close>.\<close>

definition bindAndLoad :: "onload_handler option \<Rightarrow> string \<Rightarrow> page \<Rightarrow> page" where
  "bindAndLoad h url p =
     (case displayImg p of
        None \<Rightarrow> p
      | Some img \<Rightarrow>
          p\<lparr>displayImg := Some (img\<lparr>onload := (case h of None \<Rightarrow> onload img | Some f \<Rightarrow> Some f), src := url\<rparr>),
            log := log p @ [SrcAssigned url]\<rparr>)"

text \<open>
  \<^verbatim>\<open>setSrc(src, \<dots>, skipAuto, preserveExif, sourceBlob)\<close> until it returns; in the
  metadata branch that is after the awaited \<^verbatim>\<open>extractPngMetadata\<close> has resolved.
  \<open>None\<close> means that the extraction does not return.
\<close>

definition setSrc :: "string \<Rightarrow> bool \<Rightarrow> bool \<Rightarrow> bytes option \<Rightarrow> page \<Rightarrow> page option" where
  "setSrc url skipAuto preserveExif sourceBlob p0 =
     (let p = setSrcPrologue p0
      in if preserveExif \<and> \<not> skipAuto \<and> sourceBlob \<noteq> None then
           (case extractPngMetadata (the sourceBlob) (store p) of
              None \<Rightarrow> None
            | Some (result, store') \<Rightarrow>
                Some (bindAndLoad (Some MetadataOnload) url
                        (p\<lparr>store := store'\<lparr>originalPngMetadata := result\<rparr>,
                           log := log p @ [PngTextExtracted]\<rparr>)))
         else if \<not> skipAuto then
           Some (bindAndLoad
                   (case autoAction p of
                      ActionEncrypt \<Rightarrow> Some (AutoOnload EncryptAndDisplay)
                    | ActionDecrypt \<Rightarrow> Some (AutoOnload DecryptAndDisplay)
                    | ActionNone \<Rightarrow> None) url p)
         else Some (bindAndLoad None url p))"

text \<open>
  \<^verbatim>\<open>requestAnimationFrame(callback)\<close>: every call registers one more callback for the
  next frame. The callbacks of this file call a transform, so a callback is the
  transform it calls.
\<close>

definition requestAnimationFrame :: "transform \<Rightarrow> page \<Rightarrow> page" where
  "requestAnimationFrame callback p = p\<lparr>frameCallbacks := frameCallbacks p @ [callback]\<rparr>"

text \<open>
  \<^verbatim>\<open>performImageOperation\<close>: the handler is not called here but handed to
  \<^verbatim>\<open>requestAnimationFrame\<close>.
\<close>

definition performImageOperation :: "transform \<Rightarrow> page \<Rightarrow> page" where
  "performImageOperation handler p =
     requestAnimationFrame handler (p\<lparr>log := log p @ [TransformDispatched handler]\<rparr>)"

text \<open>
  The handler of the metadata branch runs in two parts. Up to
  \<^verbatim>\<open>await extractExifData(img)\<close> it changes nothing and is then suspended; the handler
  stays bound to the element meanwhile.
\<close>

definition metadataOnloadStart :: "page \<Rightarrow> page" where
  "metadataOnloadStart p = p\<lparr>awaitingExif := Suc (awaitingExif p)\<rparr>"

text \<open>
  Once the awaited \<^verbatim>\<open>extractExifData\<close> has resolved with \<open>exifResult\<close> the run
  continues: it stores the tags, only now clears \<^verbatim>\<open>img.onload\<close>, and dispatches by the
  auto-action it reads at that moment.
\<close>

definition metadataOnloadResume :: "exifData option \<Rightarrow> page \<Rightarrow> page" where
  "metadataOnloadResume exifResult p0 =
     (let p1 = p0\<lparr>store := (store p0)\<lparr>originalExifData := exifResult\<rparr>,
                  log := log p0 @ [ExifExtracted]\<rparr>;
          p2 = p1\<lparr>displayImg := map_option (\<lambda>img. img\<lparr>onload := None\<rparr>) (displayImg p1)\<rparr>
      in case autoAction p2 of
           ActionEncrypt \<Rightarrow> performImageOperation EncryptAndDisplay p2
         | ActionDecrypt \<Rightarrow> performImageOperation DecryptAndDisplay p2
         | ActionNone \<Rightarrow> p2)"

text \<open>
  The handlers of the branch without metadata: they clear \<^verbatim>\<open>img.onload\<close> first and
  register the transform for the next frame.
\<close>

definition autoOnload :: "transform \<Rightarrow> page \<Rightarrow> page" where
  "autoOnload handler p0 =
     (let p1 = p0\<lparr>displayImg := map_option (\<lambda>img. img\<lparr>onload := None\<rparr>) (displayImg p0)\<rparr>
      in requestAnimationFrame handler (p1\<lparr>log := log p1 @ [TransformDispatched handler]\<rparr>))"

text \<open>
  What the browser does to the page. \<open>LoadFired\<close>: the image assigned to \<^verbatim>\<open>img.src\<close> is
  decoded and the load event fires, so the handler bound at that moment, if any, runs.
\<close>

definition loadEvent :: "page \<Rightarrow> page" where
  "loadEvent p0 =
     (let p = p0\<lparr>log := log p0 @ [DecodeComplete]\<rparr>
      in case displayImg p of
           None \<Rightarrow> p
         | Some img \<Rightarrow>
             (case onload img of
                None \<Rightarrow> p
              | Some MetadataOnload \<Rightarrow> metadataOnloadStart p
              | Some (AutoOnload handler) \<Rightarrow> autoOnload handler p))"

text \<open>
  \<open>ExifResolved r\<close>: the tag reader delivers \<open>r\<close> to the oldest suspended run of the
  metadata handler; without a suspended run nothing happens.
\<close>

definition exifResolved :: "exifData option \<Rightarrow> page \<Rightarrow> page" where
  "exifResolved exifResult p =
     (if awaitingExif p = 0 then p
      else metadataOnloadResume exifResult (p\<lparr>awaitingExif := awaitingExif p - 1\<rparr>))"

text \<open>
  \<open>FrameTick\<close>: the next animation frame runs every registered callback, in the order
  of registration, and each callback runs once.
\<close>

definition animationFrame :: "page \<Rightarrow> page" where
  "animationFrame p =
     p\<lparr>frameCallbacks := [], log := log p @ map TransformInvoked (frameCallbacks p)\<rparr>"

datatype browser_event = LoadFired | ExifResolved "exifData option" | FrameTick

fun browserStep :: "browser_event \<Rightarrow> page \<Rightarrow> page" where
  "browserStep LoadFired p = loadEvent p"
| "browserStep (ExifResolved exifResult) p = exifResolved exifResult p"
| "browserStep FrameTick p = animationFrame p"

fun browserRun :: "browser_event list \<Rightarrow> page \<Rightarrow> page" where
  "browserRun [] p = p"
| "browserRun (e # es) p = browserRun es (browserStep e p)"

text \<open>
  One load from the file picker in the plainest schedule:
  \<^verbatim>\<open>setSrc(url, \<dots>, false, true, file)\<close>, then the load event, the tag reader's answer and
  one animation frame.
\<close>

definition loadWithMetadata :: "string \<Rightarrow> bytes \<Rightarrow> exifData option \<Rightarrow> page \<Rightarrow> page option" where
  "loadWithMetadata url file exifResult p =
     map_option (browserRun [LoadFired, ExifResolved exifResult, FrameTick])
       (setSrc url False True (Some file) p)"

text \<open>
  How every caller shows a new blob, the file picker as well as the last step of
  \<^verbatim>\<open>encryptAndDisplay\<close>:
  \<^verbatim>\<open>const elements = rebuildImageDOM(imgContainer); setSrc(URL.createObjectURL(blob), \<dots>)\<close>.
\<close>

definition showBlob :: "string \<Rightarrow> bool \<Rightarrow> bool \<Rightarrow> bytes option \<Rightarrow> page \<Rightarrow> page option" where
  "showBlob url skipAuto preserveExif sourceBlob p =
     setSrc url skipAuto preserveExif sourceBlob (createObjectURL url (rebuildImageDOM p))"

text \<open>The events the ordering property is about, and the revocations.\<close>

fun isMilestone :: "event \<Rightarrow> bool" where
  "isMilestone PngTextExtracted = True"
| "isMilestone DecodeComplete = True"
| "isMilestone ExifExtracted = True"
| "isMilestone (TransformInvoked t) = True"
| "isMilestone e = False"

definition milestones :: "page \<Rightarrow> event list" where
  "milestones p = filter isMilestone (log p)"

definition revocations :: "page \<Rightarrow> string list" where
  "revocations p = concat (map (\<lambda>e. case e of Revoked u \<Rightarrow> [u] | _ \<Rightarrow> []) (log p))"

text \<open>
  How far a load with metadata and auto-action encrypt has come: bound and waiting for
  the load event (0), suspended at the tag reader (1), transform registered for the
  next frame (2), transform invoked (3).
\<close>

definition stage :: "nat \<Rightarrow> page \<Rightarrow> bool" where
  "stage k q \<longleftrightarrow>
     k \<le> 3 \<and> autoAction q = ActionEncrypt
     \<and> milestones q =
         take (Suc k) [PngTextExtracted, DecodeComplete, ExifExtracted, TransformInvoked EncryptAndDisplay]
     \<and> awaitingExif q = (if k = 1 then 1 else 0)
     \<and> frameCallbacks q = (if k = 2 then [EncryptAndDisplay] else [])
     \<and> (if k = 0 then map_option onload (displayImg q) = Some (Some MetadataOnload) else True)"

section \<open>The PNG chunk wire format\<close>

text \<open>
  A chunk on the wire is its data length as four big-endian bytes, a four-byte type, the
  data and a four-byte CRC; a PNG file is the eight-byte signature followed by chunks.
\<close>

record chunk =
  chunkType :: bytes
  chunkData :: bytes
  chunkCrc :: bytes

definition chunkBytes :: "chunk \<Rightarrow> bytes" where
  "chunkBytes c = setUint32 (of_nat (length (chunkData c))) @ chunkType c @ chunkData c @ chunkCrc c"

definition chunkStream :: "chunk list \<Rightarrow> bytes" where
  "chunkStream cs = concat (map chunkBytes cs)"

definition wellFormed :: "chunk \<Rightarrow> bool" where
  "wellFormed c \<longleftrightarrow>
     length (chunkType c) = 4 \<and> length (chunkCrc c) = 4 \<and> length (chunkData c) < 2 ^ 31"

definition png_signature :: bytes where
  "png_signature = [0x89, 0x50, 0x4E, 0x47, 0x0D, 0x0A, 0x1A, 0x0A]"

definition type_IDAT :: bytes where "type_IDAT = [73, 68, 65, 84]"
definition type_IEND :: bytes where "type_IEND = [73, 69, 78, 68]"
definition type_iTXt :: bytes where "type_iTXt = [105, 84, 88, 116]"

text \<open>The chunk that \<^verbatim>\<open>createTextChunk\<close> is to produce for an entry.\<close>

definition textChunk :: "jsstring \<times> jsstring \<Rightarrow> chunk" where
  "textChunk entry =
     \<lparr>chunkType = type_tEXt,
      chunkData = textChunkData (fst entry) (snd entry),
      chunkCrc = setUint32 (crc32_standard (type_tEXt @ textChunkData (fst entry) (snd entry)))\<rparr>"

text \<open>Strings whose code units are all ASCII, and keywords: ASCII without the code unit 0.\<close>

definition asciiText :: "jsstring \<Rightarrow> bool" where
  "asciiText s = list_all (\<lambda>c. c < 0x80) s"

definition asciiKeyword :: "jsstring \<Rightarrow> bool" where
  "asciiKeyword s = list_all (\<lambda>c. c \<noteq> 0 \<and> c < 0x80) s"

text \<open>
  What one iteration of the chunk walk does to the metadata object when it stands on
  the chunk \<open>c\<close>.
\<close>

definition absorb :: "textObject \<Rightarrow> chunk \<Rightarrow> textObject" where
  "absorb metadata c =
     (if chunkType c = type_tEXt \<or> chunkType c = type_iTXt then
        setProperty metadata
          (fst (readTextChunk (map ucast (chunkType c)) (chunkData c)))
          (snd (readTextChunk (map ucast (chunkType c)) (chunkData c)))
      else metadata)"

text \<open>The composition of the round trip: decode what encode returns.\<close>

definition decodeAfterEncode ::
  "bytes \<Rightarrow> textObject \<Rightarrow> metadata_store \<Rightarrow> (textObject option \<times> metadata_store) option" where
  "decodeAfterEncode bs entries st =
     Option.bind (injectPngMetadata bs (Some entries)) (\<lambda>out. extractPngMetadata out st)"

section \<open>Concrete inputs\<close>

text \<open>
  A buffer with the PNG signature followed by one chunk header whose length field is
  0xFFFFFFF4, which the signed read makes \<open>-12\<close>, and whose type is IHDR.
\<close>

definition stuckPng :: bytes where
  "stuckPng =
     [0x89, 0x50, 0x4E, 0x47, 0x0D, 0x0A, 0x1A, 0x0A, 0xFF, 0xFF, 0xFF, 0xF4, 73, 72, 68, 82]"

text \<open>The first four bytes of the signature followed by four bytes that are not its rest.\<close>

definition halfSignature :: bytes where
  "halfSignature = [0x89, 0x50, 0x4E, 0x47, 0, 0, 0, 0]"

text \<open>The first four bytes of a JPEG file.\<close>

definition jpegMagic :: bytes where
  "jpegMagic = [0xFF, 0xD8, 0xFF, 0xE0]"

definition emptyStore :: metadata_store where
  "emptyStore = \<lparr>originalExifData = None, originalPngMetadata = None, originalImageFormat = Jpeg\<rparr>"

text \<open>
  The signature and an IHDR chunk header that announces five bytes of data, cut off
  after the header; and a mapping with the one entry A = B.
\<close>

definition truncatedPng :: bytes where
  "truncatedPng = png_signature @ [0, 0, 0, 5, 73, 72, 68, 82]"

definition sampleEntries :: textObject where
  "sampleEntries = [([65], [66])]"

text \<open>A data URL that is not JPEG.\<close>

definition pngDataUrl :: string where
  "pngDataUrl = ''data:image/png;base64,iVBORw0K''"

text \<open>
  A page showing nothing, with auto-action encrypt; and a page whose image element
  shows the blob URL A.
\<close>

definition freshPage :: page where
  "freshPage =
     \<lparr>store = emptyStore, displayImg = None, autoAction = ActionEncrypt, awaitingExif = 0,
      frameCallbacks = [],
      liveUrls = [], log = []\<rparr>"

definition pageShowingA :: page where
  "pageShowingA =
     \<lparr>store = emptyStore, displayImg = Some \<lparr>src = ''blob:A'', onload = None\<rparr>,
      autoAction = ActionNone, awaitingExif = 0, frameCallbacks = [],
      liveUrls = [''blob:A''], log = []\<rparr>"

text \<open>
  The three chunks of a 1 by 1 RGBA image, the file they make, and the same file with a
  tEXt chunk C = D already in front of IDAT.
\<close>

definition tinyIHDR :: chunk where
  "tinyIHDR =
     \<lparr>chunkType = [73, 72, 68, 82], chunkData = [0, 0, 0, 1, 0, 0, 0, 1, 8, 6, 0, 0, 0],
      chunkCrc = [0x1F, 0x15, 0xC4, 0x89]\<rparr>"

definition tinyIDAT :: chunk where
  "tinyIDAT =
     \<lparr>chunkType = [73, 68, 65, 84], chunkData = [0x78, 0x9C, 0x63, 0, 1, 0, 0, 5, 0, 1],
      chunkCrc = [0x0D, 0x0A, 0x2D, 0xB4]\<rparr>"

definition tinyIEND :: chunk where
  "tinyIEND = \<lparr>chunkType = [73, 69, 78, 68], chunkData = [], chunkCrc = [0xAE, 0x42, 0x60, 0x82]\<rparr>"

definition tinyPng :: bytes where
  "tinyPng = png_signature @ chunkStream ([tinyIHDR] @ tinyIDAT # [tinyIEND])"

definition commentEntry :: "jsstring \<times> jsstring" where
  "commentEntry = ([67], [68])"

definition taggedPng :: bytes where
  "taggedPng = png_signature @ chunkStream [tinyIHDR, textChunk commentEntry] @ chunkBytes tinyIDAT @ chunkStream [tinyIEND]"

section \<open>CRC32: the bitwise loop is the standard algorithm\<close>

lemma crcShift_xor: "crcShift (a XOR b) = crcShift a XOR crcShift b"
proof -
  have b0: "(a XOR b) AND 1 \<noteq> 0 \<longleftrightarrow> (a AND 1 \<noteq> 0) \<noteq> (b AND 1 \<noteq> 0)"
    by (simp add: and_one_eq mod_2_eq_odd even_xor_iff)
  have d: "drop_bit 1 (a XOR b) = drop_bit 1 a XOR drop_bit 1 b"
    by (simp add: drop_bit_xor)
  show ?thesis unfolding crcShift_def b0 d
    by (cases "a AND 1 = 0"; cases "b AND 1 = 0") (simp_all add: ac_simps)
qed

lemma crcShift_pow_xor: "(crcShift ^^ k) (a XOR b) = (crcShift ^^ k) a XOR (crcShift ^^ k) b"
  by (induction k) (simp_all add: crcShift_xor)

lemma crcShift_low_zero:
  assumes "take_bit (Suc k) x = 0"
  shows "crcShift x = drop_bit 1 x"
proof -
  have "take_bit 1 (take_bit (Suc k) x) = 0" using assms by simp
  then have "take_bit 1 x = 0" by (simp add: min_def)
  then have "x AND 1 = 0" by (simp add: and_one_eq take_bit_Suc_0 mod_2_eq_odd)
  then show ?thesis by (simp add: crcShift_def)
qed

lemma crcShift_pow_low_zero: "take_bit k x = 0 \<Longrightarrow> (crcShift ^^ k) x = drop_bit k x"
proof (induction k arbitrary: x)
  case 0
  then show ?case by simp
next
  case (Suc k)
  have s: "crcShift x = drop_bit 1 x" using Suc.prems by (rule crcShift_low_zero)
  have "take_bit k (drop_bit 1 x) = drop_bit 1 (take_bit (Suc k) x)"
    by (simp add: take_bit_drop_bit)
  then have "take_bit k (drop_bit 1 x) = 0" using Suc.prems by simp
  then have "(crcShift ^^ k) (drop_bit 1 x) = drop_bit k (drop_bit 1 x)" by (rule Suc.IH)
  then show ?case by (simp add: funpow_swap1 s drop_bit_drop_bit)
qed

lemma crc_table_entry_eq: "crc_table_entry n = (crcShift ^^ 8) n"
proof -
  have "(\<lambda>c. if c AND 1 \<noteq> 0 then 0xEDB88320 XOR drop_bit 1 c else drop_bit 1 c) = crcShift"
    by (rule ext) (simp add: crcShift_def ac_simps)
  then show ?thesis by (simp add: crc_table_entry_def)
qed


lemma byte_no_high_bit: "\<not> bit (b::byte) (8 + n)"
  using bit_imp_le_length [of b "8 + n"] by auto

lemma drop8_ucast_byte: "drop_bit 8 (ucast (b::byte) :: u32) = 0"
  by (rule bit_eqI) (simp add: bit_simps byte_no_high_bit)

lemma and_255_take_bit: "(x::u32) AND 0xFF = take_bit 8 x"
  by (simp add: take_bit_eq_mask mask_eq_exp_minus_1)

lemma crcByte_update_crc: "crcByte c b = update_crc c b"
proof -
  define x where "x = c XOR ucast b"
  define y where "y = take_bit 8 x XOR x"
  have split: "x = take_bit 8 x XOR y"
    by (simp add: y_def)
  have low: "take_bit 8 y = 0"
    by (simp add: y_def take_bit_xor)
  have "drop_bit 8 y = drop_bit 8 x"
    by (simp add: y_def drop_bit_xor drop_bit_take_bit)
  also have "\<dots> = drop_bit 8 c"
    by (simp add: x_def drop_bit_xor drop8_ucast_byte)
  finally have hi: "drop_bit 8 y = drop_bit 8 c" .
  have "(crcShift ^^ 8) x = (crcShift ^^ 8) (take_bit 8 x) XOR (crcShift ^^ 8) y"
    using crcShift_pow_xor [of 8 "take_bit 8 x" y] split by simp
  also have "(crcShift ^^ 8) y = drop_bit 8 c"
    using crcShift_pow_low_zero [OF low] hi by simp
  finally show ?thesis
    by (simp add: crcByte_def update_crc_def crc_table_entry_eq and_255_take_bit x_def)
qed

lemma calculateCRC_standard: "calculateCRC data = crc32_standard data"
proof -
  have "crcByte = update_crc" by (intro ext) (rule crcByte_update_crc)
  then show ?thesis by (simp add: calculateCRC_def crc32_standard_def)
qed

text \<open>Two entries of the table, as the published table of CRC32 has them.\<close>

lemma crc_table_entry_1: "crc_table_entry 1 = 0x77073096"
  by code_simp

lemma crc_table_entry_255: "crc_table_entry 255 = 0x2D02EF8D"
  by code_simp

lemma setUint32_length: "length (setUint32 v) = 4" by (simp add: setUint32_def)

text \<open>
  Claim C2. For every keyword and text, the chunk built by \<^verbatim>\<open>createTextChunk\<close> is the
  big-endian data length, the type tEXt, the data, and as its last four bytes the
  big-endian standard CRC32 of the type followed by the data.
\<close>

theorem createTextChunk_crc_standard:
  "createTextChunk keyword text =
     setUint32 (of_nat (length (textChunkData keyword text))) @ type_tEXt @ textChunkData keyword text
       @ setUint32 (crc32_standard (type_tEXt @ textChunkData keyword text))"
  by (simp add: createTextChunk_def Let_def setUint32_length calculateCRC_standard type_tEXt_def)

theorem createTextChunk_crc_standard_witness:
  "createTextChunk [65] [66] =
     setUint32 (of_nat (length (textChunkData [65] [66]))) @ type_tEXt @ textChunkData [65] [66]
       @ setUint32 (crc32_standard (type_tEXt @ textChunkData [65] [66]))"
  by (rule createTextChunk_crc_standard)

section \<open>Injecting nothing\<close>

text \<open>
  Claim C8. With an absent (\<^verbatim>\<open>null\<close>) or an empty metadata mapping,
  \<^verbatim>\<open>injectPngMetadata\<close> returns its input blob, whatever the blob is.
\<close>

theorem inject_empty_noop:
  "injectPngMetadata pngBlob None = Some pngBlob \<and> injectPngMetadata pngBlob (Some []) = Some pngBlob"
  by (simp add: injectPngMetadata_def)

theorem inject_empty_noop_witness:
  "injectPngMetadata png_signature None = Some png_signature \<and>
   injectPngMetadata png_signature (Some []) = Some png_signature"
  by (rule inject_empty_noop)

section \<open>Format detection\<close>

lemma magic_iff:
  "take 4 bs = [0x89, 0x50, 0x4E, 0x47] \<longleftrightarrow>
   byteAt bs 0 = Some 0x89 \<and> byteAt bs 1 = Some 0x50 \<and> byteAt bs 2 = Some 0x4E \<and> byteAt bs 3 = Some 0x47"
proof (cases bs)
  case Nil then show ?thesis by (simp add: byteAt_def)
next
  case (Cons a as) note A = this
  show ?thesis
  proof (cases as)
    case Nil then show ?thesis using A by (simp add: byteAt_def)
  next
    case (Cons b bs') note B = this
    show ?thesis
    proof (cases bs')
      case Nil then show ?thesis using A B by (simp add: byteAt_def)
    next
      case (Cons c cs) note C = this
      show ?thesis
      proof (cases cs)
        case Nil then show ?thesis using A B C by (simp add: byteAt_def)
      next
        case (Cons d ds) then show ?thesis using A B C by (auto simp add: byteAt_def)
      qed
    qed
  qed
qed

lemma extract_mismatch:
  "take 4 bs \<noteq> [0x89, 0x50, 0x4E, 0x47] \<Longrightarrow>
   extractPngMetadata bs st = Some (None, st\<lparr>originalImageFormat := Jpeg\<rparr>)"
  unfolding magic_iff by (simp add: extractPngMetadata_def)

text \<open>
  Claim C4, as the code has it. The check reads the first four bytes only: every buffer
  whose first four bytes are not 89 50 4E 47, also one shorter than four bytes, makes
  \<^verbatim>\<open>extractPngMetadata\<close> record the format jpeg and return \<^verbatim>\<open>null\<close>; the result is a
  value, there is no exception.
\<close>

theorem not_png_magic:
  "take 4 bs \<noteq> [0x89, 0x50, 0x4E, 0x47] \<Longrightarrow>
   extractPngMetadata bs st = Some (None, st\<lparr>originalImageFormat := Jpeg\<rparr>)"
  by (rule extract_mismatch)

theorem not_png_magic_witness:
  "take 4 jpegMagic \<noteq> [0x89, 0x50, 0x4E, 0x47] \<and>
   extractPngMetadata jpegMagic (emptyStore\<lparr>originalImageFormat := Png\<rparr>)
     = Some (None, emptyStore\<lparr>originalImageFormat := Png, originalImageFormat := Jpeg\<rparr>)"
proof -
  have h: "take 4 jpegMagic \<noteq> [0x89, 0x50, 0x4E, 0x47]" by (simp add: jpegMagic_def)
  show ?thesis using h not_png_magic [OF h, of "emptyStore\<lparr>originalImageFormat := Png\<rparr>"] by simp
qed

text \<open>
  The claim as stated fails: a buffer that does not start with the eight-byte signature
  but has its first four bytes is taken for a PNG.
\<close>

theorem eight_byte_signature_counterexample:
  "take 8 halfSignature \<noteq> png_signature \<and>
   extractPngMetadata halfSignature emptyStore
     = Some (None, emptyStore\<lparr>originalImageFormat := Png\<rparr>)"
  by (simp add: halfSignature_def png_signature_def extractPngMetadata_def byteAt_def chunkWalk.simps)

section \<open>A chunk walk that does not return\<close>

lemma stuck_len: "readLength stuckPng 8 = -12"
  by (simp add: readLength_def stuckPng_def byteAt_def toInt32_def)

lemma stuck_type: "readType stuckPng 12 = [73, 72, 68, 82]"
  by (simp add: readType_def stuckPng_def byteAt_def fromCharCode_def)

lemma walkStep_stuck: "walkStep stuckPng 8 [] = Inl (8, [])"
  by (simp add: walkStep_def Let_def stuck_len stuck_type name_tEXt_def name_iTXt_def name_IEND_def)

lemma chunkWalk_fixed_point:
  assumes lt: "offset < int (length bs)"
    and fp: "walkStep bs offset metadata = Inl (offset, metadata)"
  shows "chunkWalk bs offset metadata = None"
proof (rule ccontr)
  assume "chunkWalk bs offset metadata \<noteq> None"
  then obtain r where r: "chunkWalk bs offset metadata = Some r" by auto
  have "\<not> (bs = bs \<and> offset = offset \<and> metadata = metadata)"
  proof (rule chunkWalk.raw_induct
      [where P = "\<lambda>b off m y. \<not> (b = bs \<and> off = offset \<and> m = metadata)", OF _ r])
    fix walk :: "bytes \<Rightarrow> int \<Rightarrow> textObject \<Rightarrow> textObject option"
    fix b off m y
    assume IH: "\<And>b off m y. walk b off m = Some y \<Longrightarrow> \<not> (b = bs \<and> off = offset \<and> m = metadata)"
    assume unfolded:
      "(if off < int (length b)
        then case walkStep b off m of
               Inl next \<Rightarrow> walk b (fst next) (snd next)
             | Inr metadata' \<Rightarrow> Some metadata'
        else Some m) = Some y"
    show "\<not> (b = bs \<and> off = offset \<and> m = metadata)"
    proof
      assume "b = bs \<and> off = offset \<and> m = metadata"
      with unfolded lt fp have "walk bs offset metadata = Some y" by simp
      from IH [OF this] show False by simp
    qed
  qed
  then show False by simp
qed

text \<open>
  Claim C10 fails on the code. On \<open>stuckPng\<close> the length read is \<open>-12\<close>, the offset
  after the iteration is again 8, and the walk of \<^verbatim>\<open>extractPngMetadata\<close> never returns.
\<close>

theorem chunk_walk_diverges: "extractPngMetadata stuckPng st = None"
proof -
  have "chunkWalk stuckPng 8 [] = None"
    by (rule chunkWalk_fixed_point) (simp_all add: walkStep_stuck, simp add: stuckPng_def)
  then show ?thesis
    by (simp add: extractPngMetadata_def stuckPng_def byteAt_def)
qed

theorem chunk_walk_diverges_witness: "extractPngMetadata stuckPng emptyStore = None"
  by (rule chunk_walk_diverges)
section \<open>Bytes and code units\<close>

lemma sint_of_nat_small: "n < 2 ^ 31 \<Longrightarrow> sint (of_nat n :: u32) = int n"
  by (simp add: signed_of_nat signed_take_bit_int_eq_self)

lemma ascii_unat: "(c :: 16 word) < 0x80 \<Longrightarrow> unat c < 128"
  by (simp add: word_less_nat_alt)

lemma unat_down: "unat (ucast (c :: 16 word) :: byte) = unat c mod 256"
  by (simp add: unsigned_ucast_eq take_bit_eq_mod)

lemma unat_up: "unat (ucast (b :: byte) :: 16 word) = unat b"
proof -
  have "unat b < 2 ^ 16" using unsigned_less [of b, where 'a = nat] by simp
  then show ?thesis by (simp add: unsigned_ucast_eq take_bit_nat_eq_self)
qed

lemma ascii_down_up: "c < 0x80 \<Longrightarrow> (ucast (ucast (c :: 16 word) :: byte) :: 16 word) = c"
  by (rule word_unat_eq_iff [THEN iffD2]) (simp add: unat_up unat_down ascii_unat [THEN less_trans])

lemma ascii_byte: "c < 0x80 \<Longrightarrow> (ucast (c :: 16 word) :: byte) < 0x80"
  using ascii_unat [of c] by (simp add: word_less_nat_alt unat_down)

lemma ascii_nonzero: "c \<noteq> 0 \<Longrightarrow> c < 0x80 \<Longrightarrow> (ucast (c :: 16 word) :: byte) \<noteq> 0"
proof -
  assume "c \<noteq> 0" "c < 0x80"
  then have "unat c \<noteq> 0" "unat c < 128" by (simp_all add: unat_0_iff ascii_unat)
  then have "unat (ucast c :: byte) \<noteq> 0" by (simp add: unat_down)
  then show ?thesis by (auto simp add: unat_0_iff)
qed

lemma ucast_inj: "(ucast (a :: byte) :: 16 word) = ucast b \<longleftrightarrow> a = b"
proof
  assume "(ucast a :: 16 word) = ucast b"
  then have "unat (ucast a :: 16 word) = unat (ucast b :: 16 word)" by simp
  then show "a = b" by (simp add: unat_up word_unat_eq_iff)
qed simp

lemma map_ucast_inj: "map (ucast :: byte \<Rightarrow> 16 word) xs = map ucast ys \<longleftrightarrow> xs = ys"
  by (simp add: inj_map_eq_map inj_def ucast_inj)

lemma latin1_ascii: "b < 0x80 \<Longrightarrow> latin1_decode_byte b = ucast b"
  by (auto simp add: latin1_decode_byte_def)

section \<open>Chunks in a buffer\<close>

lemma be32_join:
  fixes v :: u32
  shows "push_bit 24 (ucast (ucast (drop_bit 24 v) :: byte)) OR push_bit 16 (ucast (ucast (drop_bit 16 v) :: byte))
         OR push_bit 8 (ucast (ucast (drop_bit 8 v) :: byte)) OR ucast (ucast v :: byte) = v"
proof (rule bit_eqI)
  fix n
  assume "possible_bit TYPE(u32) n"
  then have n: "n < 32" by (simp add: possible_bit_def)
  consider "n < 8" | "8 \<le> n" "n < 16" | "16 \<le> n" "n < 24" | "24 \<le> n" "n < 32"
    using n by linarith
  then show "bit (push_bit 24 (ucast (ucast (drop_bit 24 v) :: byte)) OR push_bit 16 (ucast (ucast (drop_bit 16 v) :: byte))
         OR push_bit 8 (ucast (ucast (drop_bit 8 v) :: byte)) OR (ucast (ucast v :: byte) :: u32)) n = bit v n"
    by cases (auto simp add: bit_simps)
qed

subsection \<open>Reading behind a prefix\<close>

lemma byteAt_append:
  "0 \<le> k \<Longrightarrow> byteAt (xs @ ys) (int (length xs) + k) = byteAt ys k"
  by (auto simp add: byteAt_def nth_append nat_add_distrib)

lemma readLength_append:
  "0 \<le> k \<Longrightarrow> readLength (xs @ ys) (int (length xs) + k) = readLength ys k"
  using byteAt_append [of k xs ys] byteAt_append [of "k + 1" xs ys]
    byteAt_append [of "k + 2" xs ys] byteAt_append [of "k + 3" xs ys]
  by (simp add: readLength_def add.assoc)

lemma readType_append:
  "0 \<le> k \<Longrightarrow> readType (xs @ ys) (int (length xs) + k) = readType ys k"
  using byteAt_append [of k xs ys] byteAt_append [of "k + 1" xs ys]
    byteAt_append [of "k + 2" xs ys] byteAt_append [of "k + 3" xs ys]
  by (simp add: readType_def add.assoc)

lemma readLength_setUint32: "readLength (setUint32 v @ rest) 0 = sint v"
  by (simp add: readLength_def setUint32_def byteAt_def toInt32_def be32_join)

lemma list_of_four: "length xs = 4 \<Longrightarrow> \<exists>a b c d. xs = [a, b, c, d]"
  by (auto simp add: length_Suc_conv eval_nat_numeral)

lemma readType_four:
  assumes "length hd4 = 4" and "length ty = 4"
  shows "readType (hd4 @ ty @ rest) 4 = map ucast ty"
proof -
  obtain a b c d where ty: "ty = [a, b, c, d]"
    using list_of_four [OF assms(2)] by blast
  have "readType (hd4 @ ty @ rest) (int (length hd4) + 0) = readType (ty @ rest) 0"
    by (rule readType_append) simp
  then show ?thesis using assms(1) by (simp add: ty readType_def byteAt_def fromCharCode_def)
qed

subsection \<open>One chunk\<close>

lemma chunkBytes_length: "wellFormed c \<Longrightarrow> length (chunkBytes c) = 12 + length (chunkData c)"
  by (simp add: chunkBytes_def wellFormed_def setUint32_def)

lemma chunk_readLength:
  assumes "wellFormed c"
  shows "readLength (pre @ chunkBytes c @ post) (int (length pre)) = int (length (chunkData c))"
proof -
  have "readLength (pre @ chunkBytes c @ post) (int (length pre) + 0) = readLength (chunkBytes c @ post) 0"
    by (rule readLength_append) simp
  also have "\<dots> = sint (of_nat (length (chunkData c)) :: u32)"
    by (simp add: chunkBytes_def readLength_setUint32)
  also have "\<dots> = int (length (chunkData c))"
    using assms by (intro sint_of_nat_small) (simp add: wellFormed_def)
  finally show ?thesis by simp
qed

lemma chunk_readType:
  assumes "wellFormed c"
  shows "readType (pre @ chunkBytes c @ post) (int (length pre) + 4) = map ucast (chunkType c)"
proof -
  have "readType (pre @ chunkBytes c @ post) (int (length pre) + 4) = readType (chunkBytes c @ post) 4"
    by (rule readType_append) simp
  also have "\<dots> = map ucast (chunkType c)"
    using assms readType_four [of "setUint32 (of_nat (length (chunkData c)))" "chunkType c" "chunkData c @ chunkCrc c @ post"]
    by (simp add: chunkBytes_def wellFormed_def setUint32_def)
  finally show ?thesis .
qed

lemma chunk_slice:
  assumes "wellFormed c"
  shows "u8slice (pre @ chunkBytes c @ post) (int (length pre) + 8)
           (int (length pre) + 8 + int (length (chunkData c))) = chunkData c"
proof -
  have l: "length (chunkType c) = 4" using assms by (simp add: wellFormed_def)
  have a: "relativeIndex (length (pre @ chunkBytes c @ post)) (int (length pre) + 8) = length pre + 8"
    using assms by (simp add: relativeIndex_def chunkBytes_length nat_add_distrib)
  have b: "relativeIndex (length (pre @ chunkBytes c @ post)) (int (length pre) + 8 + int (length (chunkData c)))
           = length pre + 8 + length (chunkData c)"
    using assms by (simp add: relativeIndex_def chunkBytes_length nat_add_distrib)
  have "drop (length pre + 8) (pre @ chunkBytes c @ post) = chunkData c @ chunkCrc c @ post"
    by (simp add: chunkBytes_def setUint32_def l)
  then show ?thesis
    unfolding u8slice_def Let_def a b by simp
qed

lemma findIdat_end: "\<not> off < int (length bs) \<Longrightarrow> findIdat bs off = Some off"
  by (subst findIdat.simps) simp

lemma findIdat_next:
  "off < int (length bs) \<Longrightarrow> idatStep bs off = Inl n \<Longrightarrow> findIdat bs off = findIdat bs n"
  by (subst findIdat.simps) simp

lemma findIdat_found:
  "off < int (length bs) \<Longrightarrow> idatStep bs off = Inr n \<Longrightarrow> findIdat bs off = Some n"
  by (subst findIdat.simps) simp

subsection \<open>The scan for IDAT over well-formed chunks\<close>

lemma name_IDAT_iff: "map ucast ty = name_IDAT \<longleftrightarrow> ty = type_IDAT"
proof -
  have h: "name_IDAT = map ucast type_IDAT" by (simp add: name_IDAT_def type_IDAT_def)
  show ?thesis unfolding h by (rule map_ucast_inj)
qed

lemma idatStep_chunk:
  assumes "wellFormed c"
  shows "idatStep (pre @ chunkBytes c @ post) (int (length pre)) =
           (if chunkType c = type_IDAT then Inr (int (length pre))
            else Inl (int (length (pre @ chunkBytes c))))"
  using assms
  by (simp add: idatStep_def chunk_readType chunk_readLength name_IDAT_iff chunkBytes_length)

lemma chunkStream_Cons: "chunkStream (c # cs) = chunkBytes c @ chunkStream cs"
  by (simp add: chunkStream_def)

lemma chunkStream_append: "chunkStream (cs @ ds) = chunkStream cs @ chunkStream ds"
  by (simp add: chunkStream_def)

lemma findIdat_chunks:
  assumes "\<forall>c\<in>set cs. wellFormed c \<and> chunkType c \<noteq> type_IDAT"
    and "wellFormed idat" and "chunkType idat = type_IDAT"
  shows "findIdat (pre @ chunkStream cs @ chunkBytes idat @ post) (int (length pre))
           = Some (int (length (pre @ chunkStream cs)))"
  using assms(1)
proof (induction cs arbitrary: pre)
  case Nil
  have lt: "int (length pre) < int (length (pre @ chunkBytes idat @ post))"
    using assms(2) by (simp add: chunkBytes_length)
  have "idatStep (pre @ chunkBytes idat @ post) (int (length pre)) = Inr (int (length pre))"
    using assms(2,3) by (simp add: idatStep_chunk)
  from findIdat_found [OF lt this] show ?case by (simp add: chunkStream_def)
next
  case (Cons c cs)
  let ?bs = "pre @ chunkBytes c @ (chunkStream cs @ chunkBytes idat @ post)"
  have wf: "wellFormed c" and ty: "chunkType c \<noteq> type_IDAT" using Cons.prems by simp_all
  have lt: "int (length pre) < int (length ?bs)"
    using wf by (simp add: chunkBytes_length)
  have st: "idatStep ?bs (int (length pre)) = Inl (int (length (pre @ chunkBytes c)))"
    using wf ty by (simp add: idatStep_chunk)
  have "findIdat ?bs (int (length pre)) = findIdat ?bs (int (length (pre @ chunkBytes c)))"
    using lt st by (rule findIdat_next)
  also have "\<dots> = Some (int (length ((pre @ chunkBytes c) @ chunkStream cs)))"
    using Cons.IH [of "pre @ chunkBytes c"] Cons.prems by simp
  finally show ?case by (simp add: chunkStream_Cons)
qed

subsection \<open>Assembling the new buffer\<close>

lemma total_length: "foldl (\<lambda>sum chunk. sum + length chunk) n chunks = n + length (concat chunks)"
  by (induction chunks arbitrary: n) simp_all

lemma u8set_behind:
  assumes "length source \<le> length B"
  shows "u8set (A @ B) source (int (length A)) = Inr (A @ source @ drop (length source) B)"
  using assms by (simp add: u8set_def)

lemma setChunks_behind:
  assumes "length (concat chunks) \<le> length B"
  shows "setChunks (A @ B) chunks (int (length A)) =
           Inr (A @ concat chunks @ drop (length (concat chunks)) B,
                int (length A) + int (length (concat chunks)))"
  using assms
proof (induction chunks arbitrary: A B)
  case Nil
  then show ?case by simp
next
  case (Cons chunk chunks)
  have s1: "u8set (A @ B) chunk (int (length A)) = Inr ((A @ chunk) @ drop (length chunk) B)"
    using Cons.prems by (simp add: u8set_behind)
  have fit: "length (concat chunks) \<le> length (drop (length chunk) B)"
    using Cons.prems by simp
  have o: "int (length A) + int (length chunk) = int (length (A @ chunk))" by simp
  show ?case
    unfolding setChunks.simps s1 sum.case o Cons.IH [OF fit]
    by (simp add: add.commute)
qed

lemma buildPng_inside:
  assumes "0 \<le> off" and "nat off \<le> length bs"
  shows "buildPng bs off metadata =
           Inr (take (nat off) bs
                @ concat (map (\<lambda>entry. createTextChunk (fst entry) (snd entry)) metadata)
                @ drop (nat off) bs)"
proof -
  define chunks where "chunks = map (\<lambda>entry. createTextChunk (fst entry) (snd entry)) metadata"
  define A where "A = take (nat off) bs"
  define total where "total = length (concat chunks)"
  have lA: "length A = nat off" using assms by (simp add: A_def)
  have offA: "off = int (length A)" using assms lA by simp
  have rep: "replicate (length bs + total) (0 :: byte)
              = replicate (length A) 0 @ replicate total 0 @ replicate (length bs - length A) 0"
    using assms lA by (simp add: replicate_add [symmetric])
  have sl: "u8slice bs 0 off = A"
    using assms by (simp add: u8slice_def relativeIndex_def A_def min_def)
  have s1: "u8set (replicate (length bs + total) 0) A 0
              = Inr (A @ replicate total 0 @ replicate (length bs - length A) 0)"
    unfolding rep by (simp add: u8set_def)
  have s2: "setChunks (A @ replicate total 0 @ replicate (length bs - length A) 0) chunks off
              = Inr (A @ concat chunks @ replicate (length bs - length A) 0, off + int total)"
    unfolding offA using setChunks_behind [of chunks "replicate total 0 @ replicate (length bs - length A) 0" A]
    by (simp add: total_def)
  have sf: "u8sliceFrom bs off = drop (nat off) bs"
    using assms by (simp add: u8sliceFrom_def relativeIndex_def min_def)
  have o2: "off + int total = int (length (A @ concat chunks))"
    by (simp add: offA total_def)
  have s3: "u8set ((A @ concat chunks) @ replicate (length bs - length A) 0) (drop (nat off) bs)
              (int (length (A @ concat chunks))) = Inr ((A @ concat chunks) @ drop (nat off) bs @ [])"
    using u8set_behind [of "drop (nat off) bs" "replicate (length bs - length A) 0" "A @ concat chunks"] lA
    by simp
  show ?thesis
    unfolding buildPng_def Let_def chunks_def [symmetric] total_length
    using s1 s2 s3 sl sf o2
    by (simp add: total_def A_def)
qed

lemma createTextChunk_chunkBytes: "createTextChunk (fst e) (snd e) = chunkBytes (textChunk e)"
  by (simp add: createTextChunk_def Let_def setUint32_length calculateCRC_standard type_tEXt_def
      chunkBytes_def textChunk_def)

lemma textChunks_stream:
  "concat (map (\<lambda>entry. createTextChunk (fst entry) (snd entry)) entries) = chunkStream (map textChunk entries)"
  by (simp add: chunkStream_def createTextChunk_chunkBytes comp_def)

lemma inject_layout:
  assumes "length sig = 8"
    and "\<forall>c\<in>set pre. wellFormed c \<and> chunkType c \<noteq> type_IDAT"
    and "wellFormed idat" and "chunkType idat = type_IDAT"
    and "entries \<noteq> []"
  shows "injectPngMetadata (sig @ chunkStream pre @ chunkBytes idat @ rest) (Some entries)
           = Some (sig @ chunkStream pre @ chunkStream (map textChunk entries) @ chunkBytes idat @ rest)"
proof -
  let ?bs = "sig @ chunkStream pre @ chunkBytes idat @ rest"
  have "findIdat ?bs (int (length sig)) = Some (int (length (sig @ chunkStream pre)))"
    using assms(2-4) by (rule findIdat_chunks)
  then have scan: "findIdat ?bs 8 = Some (int (length (sig @ chunkStream pre)))"
    using assms(1) by simp
  have build: "buildPng ?bs (int (length (sig @ chunkStream pre))) entries
                 = Inr (take (nat (int (length (sig @ chunkStream pre)))) ?bs
                        @ concat (map (\<lambda>entry. createTextChunk (fst entry) (snd entry)) entries)
                        @ drop (nat (int (length (sig @ chunkStream pre)))) ?bs)"
    by (rule buildPng_inside) simp_all
  have "injectBody ?bs entries
          = Some (Inr (sig @ chunkStream pre @ chunkStream (map textChunk entries) @ chunkBytes idat @ rest))"
    unfolding injectBody_def scan option.case build textChunks_stream by simp
  then show ?thesis using assms(5) by (simp add: injectPngMetadata_def)
qed

text \<open>
  Claim C6. For a buffer made of eight leading bytes, well-formed chunks none of which is
  IDAT, an IDAT chunk and any further bytes, and a non-empty mapping,
  \<^verbatim>\<open>injectPngMetadata\<close> returns the original bytes up to the header of that first IDAT
  chunk, then the chunks built by \<^verbatim>\<open>createTextChunk\<close> in the order of the entries, then
  the original bytes from the IDAT header on: every original chunk stays in place and in
  order, and what follows IDAT, IEND included, is untouched.
\<close>

theorem inject_before_first_IDAT:
  assumes "length sig = 8"
    and "\<forall>c\<in>set pre. wellFormed c \<and> chunkType c \<noteq> type_IDAT"
    and "wellFormed idat" and "chunkType idat = type_IDAT"
    and "entries \<noteq> []"
  shows "injectPngMetadata (sig @ chunkStream pre @ chunkBytes idat @ rest) (Some entries)
           = Some (sig @ chunkStream pre
                   @ concat (map (\<lambda>entry. createTextChunk (fst entry) (snd entry)) entries)
                   @ chunkBytes idat @ rest)"
  using inject_layout [OF assms] by (simp add: textChunks_stream)

lemma tiny_wellFormed: "wellFormed tinyIHDR \<and> wellFormed tinyIDAT \<and> wellFormed tinyIEND"
  by (simp add: wellFormed_def tinyIHDR_def tinyIDAT_def tinyIEND_def)

theorem inject_before_first_IDAT_witness:
  "length png_signature = 8 \<and> wellFormed tinyIHDR \<and> chunkType tinyIHDR \<noteq> type_IDAT
   \<and> wellFormed tinyIDAT \<and> chunkType tinyIDAT = type_IDAT \<and> sampleEntries \<noteq> []
   \<and> injectPngMetadata (png_signature @ chunkStream [tinyIHDR] @ chunkBytes tinyIDAT @ chunkStream [tinyIEND])
        (Some sampleEntries)
      = Some (png_signature @ chunkStream [tinyIHDR]
              @ concat (map (\<lambda>entry. createTextChunk (fst entry) (snd entry)) sampleEntries)
              @ chunkBytes tinyIDAT @ chunkStream [tinyIEND])"
proof -
  have h1: "length png_signature = 8" by (simp add: png_signature_def)
  have h2: "\<forall>c\<in>set [tinyIHDR]. wellFormed c \<and> chunkType c \<noteq> type_IDAT"
    by (simp add: tiny_wellFormed) (simp add: tinyIHDR_def type_IDAT_def)
  have h3: "wellFormed tinyIDAT" by (simp add: tiny_wellFormed)
  have h4: "chunkType tinyIDAT = type_IDAT" by (simp add: tinyIDAT_def type_IDAT_def)
  have h5: "sampleEntries \<noteq> []" by (simp add: sampleEntries_def)
  show ?thesis
    using inject_before_first_IDAT [OF h1 h2 h3 h4 h5, of "chunkStream [tinyIEND]"] h1 h2 h3 h4 h5
    by simp
qed

section \<open>Injection failure\<close>

lemma createTextChunk_length: "length (createTextChunk k t) = 12 + length (textChunkData k t)"
  by (simp add: createTextChunk_def Let_def setUint32_def type_tEXt_def)

text \<open>
  Claim C7. When the \<^verbatim>\<open>try\<close> block of \<^verbatim>\<open>injectPngMetadata\<close> throws, the function returns
  the blob it was given; when the \<^verbatim>\<open>try\<close> block of \<^verbatim>\<open>injectExifToDataUrl\<close> throws (the
  library's \<^verbatim>\<open>dump\<close> or \<^verbatim>\<open>insert\<close>), the function returns the data URL it was given.
\<close>

theorem injection_failure_returns_input:
  "(injectBody pngBlob entries = Some (Inl e) \<longrightarrow> injectPngMetadata pngBlob (Some entries) = Some pngBlob)
   \<and> (exifBody lib dataUrl tags = Inl e' \<longrightarrow> injectExifToDataUrl (Some lib) dataUrl (Some tags) = dataUrl)"
  by (simp add: injectPngMetadata_def injectExifToDataUrl_def)

lemma truncated_scan: "findIdat truncatedPng 8 = Some 25"
proof -
  have len: "readLength truncatedPng 8 = 5"
    by (simp add: readLength_def truncatedPng_def png_signature_def byteAt_def toInt32_def)
  have ty: "readType truncatedPng 12 = [73, 72, 68, 82]"
    by (simp add: readType_def truncatedPng_def png_signature_def byteAt_def fromCharCode_def)
  have "idatStep truncatedPng 8 = Inl 25"
    by (simp add: idatStep_def len ty name_IDAT_def)
  then have "findIdat truncatedPng 8 = findIdat truncatedPng 25"
    by (intro findIdat_next) (simp_all add: truncatedPng_def png_signature_def)
  also have "\<dots> = Some 25"
    by (rule findIdat_end) (simp add: truncatedPng_def png_signature_def)
  finally show ?thesis .
qed

lemma truncated_throws: "injectBody truncatedPng sampleEntries = Some (Inl RangeError)"
proof -
  have l: "length (textChunkData [65] [66]) = 3" by (simp add: textChunkData_def)
  show ?thesis
    unfolding injectBody_def truncated_scan
    by (simp add: buildPng_def Let_def sampleEntries_def u8set_def
        createTextChunk_length l u8slice_def relativeIndex_def truncatedPng_def png_signature_def)
qed

theorem injection_failure_returns_input_witness:
  "injectBody truncatedPng sampleEntries = Some (Inl RangeError)
   \<and> injectPngMetadata truncatedPng (Some sampleEntries) = Some truncatedPng
   \<and> exifBody sample_piexif pngDataUrl [] = Inl LibraryError
   \<and> injectExifToDataUrl (Some sample_piexif) pngDataUrl (Some []) = pngDataUrl"
proof -
  have x: "exifBody sample_piexif pngDataUrl [] = Inl LibraryError"
    by (simp add: exifBody_def sample_piexif_def sample_dump_def sample_insert_def)
  show ?thesis
    using injection_failure_returns_input
      [of truncatedPng sampleEntries RangeError sample_piexif pngDataUrl "[]" LibraryError]
      truncated_throws x
    by simp
qed

section \<open>The EXIF bridge\<close>

text \<open>
  The guard of \<^verbatim>\<open>injectExifToDataUrl\<close>: the input comes back unchanged when the library
  is unavailable, whatever the tags, and when the tag mapping is absent (\<^verbatim>\<open>null\<close>),
  whatever the library.
\<close>

lemma exif_guard_returns_input:
  "injectExifToDataUrl None dataUrl exifData = dataUrl \<and> injectExifToDataUrl lib dataUrl None = dataUrl"
  by (simp add: injectExifToDataUrl_def split: option.splits)


section \<open>The round trip\<close>

subsection \<open>The chunk walk over well-formed chunks\<close>

lemma chunkWalk_end: "\<not> off < int (length bs) \<Longrightarrow> chunkWalk bs off md = Some md"
  by (subst chunkWalk.simps) simp

lemma chunkWalk_next:
  "off < int (length bs) \<Longrightarrow> walkStep bs off md = Inl (n, md') \<Longrightarrow> chunkWalk bs off md = chunkWalk bs n md'"
  by (subst chunkWalk.simps) simp

lemma chunkWalk_break:
  "off < int (length bs) \<Longrightarrow> walkStep bs off md = Inr md' \<Longrightarrow> chunkWalk bs off md = Some md'"
  by (subst chunkWalk.simps) simp

lemma name_tEXt_iff: "map ucast ty = name_tEXt \<longleftrightarrow> ty = type_tEXt"
proof -
  have h: "name_tEXt = map ucast type_tEXt" by (simp add: name_tEXt_def type_tEXt_def)
  show ?thesis unfolding h by (rule map_ucast_inj)
qed

lemma name_iTXt_iff: "map ucast ty = name_iTXt \<longleftrightarrow> ty = type_iTXt"
proof -
  have h: "name_iTXt = map ucast type_iTXt" by (simp add: name_iTXt_def type_iTXt_def)
  show ?thesis unfolding h by (rule map_ucast_inj)
qed

lemma name_IEND_iff: "map ucast ty = name_IEND \<longleftrightarrow> ty = type_IEND"
proof -
  have h: "name_IEND = map ucast type_IEND" by (simp add: name_IEND_def type_IEND_def)
  show ?thesis unfolding h by (rule map_ucast_inj)
qed

lemma walkStep_chunk:
  assumes "wellFormed c"
  shows "walkStep (pre @ chunkBytes c @ post) (int (length pre)) md =
           (if chunkType c = type_IEND then Inr (absorb md c)
            else Inl (int (length (pre @ chunkBytes c)), absorb md c))"
proof -
  have sl: "u8slice (pre @ chunkBytes c @ post) (int (length pre) + 4 + 4)
              (int (length pre) + 4 + 4 + int (length (chunkData c))) = chunkData c"
    using chunk_slice [OF assms, of pre post] by (simp add: add.assoc)
  show ?thesis
    unfolding walkStep_def Let_def chunk_readLength [OF assms] chunk_readType [OF assms] sl
      name_tEXt_iff name_iTXt_iff name_IEND_iff
    using assms by (simp add: absorb_def chunkBytes_length name_tEXt_iff)
qed

lemma chunkWalk_chunks:
  assumes "\<forall>c\<in>set cs. wellFormed c \<and> chunkType c \<noteq> type_IEND"
  shows "chunkWalk (pre @ chunkStream cs @ post) (int (length pre)) md
           = chunkWalk (pre @ chunkStream cs @ post) (int (length (pre @ chunkStream cs))) (foldl absorb md cs)"
  using assms
proof (induction cs arbitrary: pre md)
  case Nil
  then show ?case by (simp add: chunkStream_def)
next
  case (Cons c cs)
  let ?bs = "pre @ chunkBytes c @ (chunkStream cs @ post)"
  have wf: "wellFormed c" and ty: "chunkType c \<noteq> type_IEND" using Cons.prems by simp_all
  have lt: "int (length pre) < int (length ?bs)"
    using wf by (simp add: chunkBytes_length)
  have st: "walkStep ?bs (int (length pre)) md = Inl (int (length (pre @ chunkBytes c)), absorb md c)"
    using wf ty by (simp add: walkStep_chunk)
  have "chunkWalk ?bs (int (length pre)) md = chunkWalk ?bs (int (length (pre @ chunkBytes c))) (absorb md c)"
    using lt st by (rule chunkWalk_next)
  also have "\<dots> = chunkWalk ?bs (int (length ((pre @ chunkBytes c) @ chunkStream cs))) (foldl absorb (absorb md c) cs)"
    using Cons.IH [of "pre @ chunkBytes c" "absorb md c"] Cons.prems by simp
  finally show ?case by (simp add: chunkStream_Cons)
qed

lemma chunkWalk_tail:
  assumes "\<forall>c\<in>set cs. wellFormed c \<and> chunkType c \<noteq> type_tEXt \<and> chunkType c \<noteq> type_iTXt"
  shows "chunkWalk (pre @ chunkStream cs) (int (length pre)) md = Some md"
  using assms
proof (induction cs arbitrary: pre)
  case Nil
  show ?case by (rule chunkWalk_end) (simp add: chunkStream_def)
next
  case (Cons c cs)
  let ?bs = "pre @ chunkBytes c @ chunkStream cs"
  have wf: "wellFormed c" and ty: "chunkType c \<noteq> type_tEXt" "chunkType c \<noteq> type_iTXt"
    using Cons.prems by simp_all
  have ab: "absorb md c = md" using ty by (simp add: absorb_def)
  have lt: "int (length pre) < int (length ?bs)"
    using wf by (simp add: chunkBytes_length)
  show ?case
  proof (cases "chunkType c = type_IEND")
    case True
    have "walkStep ?bs (int (length pre)) md = Inr md"
      using walkStep_chunk [OF wf, of pre "chunkStream cs" md] True ab by simp
    from chunkWalk_break [OF lt this] show ?thesis by (simp add: chunkStream_Cons)
  next
    case False
    have "walkStep ?bs (int (length pre)) md = Inl (int (length (pre @ chunkBytes c)), md)"
      using walkStep_chunk [OF wf, of pre "chunkStream cs" md] False ab by simp
    from chunkWalk_next [OF lt this]
    have "chunkWalk ?bs (int (length pre)) md = chunkWalk ?bs (int (length (pre @ chunkBytes c))) md" .
    also have "\<dots> = Some md"
      using Cons.IH [of "pre @ chunkBytes c"] Cons.prems by simp
    finally show ?thesis by (simp add: chunkStream_Cons)
  qed
qed

subsection \<open>Reading back a chunk written for an ASCII entry\<close>

lemma asciiKeyword_text: "asciiKeyword s \<Longrightarrow> asciiText s"
  by (simp add: asciiKeyword_def asciiText_def list_all_iff)

lemma utf8_encode_ascii: "asciiText s \<Longrightarrow> utf8_encode s = map ucast s"
  by (induction s) (simp_all add: asciiText_def)

lemma nonNullRun_keyword:
  assumes "asciiKeyword k"
  shows "nonNullRun (map ucast k @ 0 # rest) 0 = map ucast k"
proof -
  have "\<And>b. b \<in> set (map ucast k :: bytes) \<Longrightarrow> b \<noteq> 0"
    using assms by (auto simp add: asciiKeyword_def list_all_iff ascii_nonzero)
  then have "takeWhile (\<lambda>b. b \<noteq> 0) (map ucast k @ 0 # rest) = map ucast k @ takeWhile (\<lambda>b. b \<noteq> 0) (0 # rest)"
    by (rule takeWhile_append2)
  then show ?thesis by (simp add: nonNullRun_def)
qed

lemma ascii_round: "asciiText s \<Longrightarrow> map (\<lambda>b. fromCharCode (Some b)) (map ucast s) = s"
  by (induction s) (simp_all add: asciiText_def fromCharCode_def ascii_down_up)

lemma ascii_round_comp: "asciiText s \<Longrightarrow> map ((\<lambda>b. fromCharCode (Some b)) \<circ> ucast) s = s"
  using ascii_round [of s] by simp

lemma latin1_round: "asciiText s \<Longrightarrow> latin1_decode (map ucast s) = s"
  by (induction s) (simp_all add: asciiText_def latin1_decode_def latin1_ascii ascii_byte ascii_down_up)

lemma readTextChunk_written:
  assumes "asciiKeyword k" and "asciiText t"
  shows "readTextChunk name_tEXt (textChunkData k t) = (k, t)"
proof -
  have cd: "textChunkData k t = map ucast k @ 0 # map ucast t"
    using assms by (simp add: textChunkData_def utf8_encode_ascii asciiKeyword_text)
  have run: "nonNullRun (textChunkData k t) 0 = map ucast k"
    unfolding cd using assms(1) by (rule nonNullRun_keyword)
  have sl: "u8sliceFrom (textChunkData k t) (int (length (map ucast k :: bytes) + 1)) = map ucast t"
    unfolding cd by (simp add: u8sliceFrom_def relativeIndex_def nat_add_distrib)
  show ?thesis
    unfolding readTextChunk_def Let_def run sl
    using assms by (simp add: ascii_round_comp asciiKeyword_text latin1_round)
qed

lemma textChunk_wellFormed:
  assumes "asciiKeyword (fst e)" and "asciiText (snd e)" and "length (fst e) + length (snd e) + 1 < 2 ^ 31"
  shows "wellFormed (textChunk e)"
  using assms
  by (simp add: wellFormed_def textChunk_def type_tEXt_def setUint32_def textChunkData_def
      utf8_encode_ascii asciiKeyword_text)

lemma absorb_textChunk:
  assumes "asciiKeyword (fst e)" and "asciiText (snd e)"
  shows "absorb md (textChunk e) = setProperty md (fst e) (snd e)"
proof -
  have n: "map ucast type_tEXt = name_tEXt" by (simp add: name_tEXt_iff)
  show ?thesis
    using readTextChunk_written [OF assms]
    by (simp add: absorb_def textChunk_def n)
qed

lemma assign_new: "k \<notin> fst ` set m \<Longrightarrow> assign k v m = m @ [(k, v)]"
  by (induction m) auto

lemma absorb_entries:
  assumes "distinct (map fst es)"
    and "fst ` set md \<inter> fst ` set es = {}"
    and "\<forall>e\<in>set es. asciiKeyword (fst e) \<and> asciiText (snd e) \<and> fst e \<noteq> proto_key"
  shows "foldl absorb md (map textChunk es) = md @ es"
  using assms
proof (induction es arbitrary: md)
  case Nil
  then show ?case by simp
next
  case (Cons e es)
  have "absorb md (textChunk e) = setProperty md (fst e) (snd e)"
    using Cons.prems(3) by (simp add: absorb_textChunk)
  also have "\<dots> = md @ [(fst e, snd e)]"
    using Cons.prems(2,3) by (simp add: setProperty_def assign_new)
  finally have step: "absorb md (textChunk e) = md @ [e]" by simp
  have "foldl absorb (md @ [e]) (map textChunk es) = (md @ [e]) @ es"
  proof (rule Cons.IH)
    show "distinct (map fst es)" using Cons.prems(1) by simp
    show "fst ` set (md @ [e]) \<inter> fst ` set es = {}"
      using Cons.prems(1,2) by auto
    show "\<forall>e\<in>set es. asciiKeyword (fst e) \<and> asciiText (snd e) \<and> fst e \<noteq> proto_key"
      using Cons.prems(3) by simp
  qed
  then show ?case by (simp add: step)
qed

lemma absorb_others:
  "\<forall>c\<in>set cs. chunkType c \<noteq> type_tEXt \<and> chunkType c \<noteq> type_iTXt \<Longrightarrow> foldl absorb md cs = md"
  by (induction cs) (simp_all add: absorb_def)

lemma extract_walk:
  assumes "take 4 bs = [0x89, 0x50, 0x4E, 0x47]" and "chunkWalk bs 8 [] = Some md"
  shows "extractPngMetadata bs st =
           Some (if md \<noteq> [] then Some md else None, st\<lparr>originalImageFormat := Png\<rparr>)"
  using assms unfolding magic_iff by (simp add: extractPngMetadata_def)

text \<open>
  Claim C1, as the code has it. Take a buffer that is a signature starting with
  89 50 4E 47 followed by well-formed chunks: chunks that are none of IDAT, IEND, tEXt,
  iTXt, then an IDAT chunk, then chunks none of which is tEXt or iTXt. Take a non-empty
  list of entries with distinct keywords, each keyword ASCII without the code unit 0 and
  other than \<^verbatim>\<open>__proto__\<close>, each text ASCII, each chunk's data shorter than 2^31 bytes.
  Then decoding what the encoder returns gives the format png and a mapping equal to
  the entries.
\<close>

theorem png_text_round_trip:
  assumes sig: "length sig = 8" "take 4 sig = [0x89, 0x50, 0x4E, 0x47]"
    and pre: "\<forall>c\<in>set pre. wellFormed c \<and> chunkType c \<noteq> type_IDAT \<and> chunkType c \<noteq> type_IEND
                \<and> chunkType c \<noteq> type_tEXt \<and> chunkType c \<noteq> type_iTXt"
    and idat: "wellFormed idat" "chunkType idat = type_IDAT"
    and post: "\<forall>c\<in>set post. wellFormed c \<and> chunkType c \<noteq> type_tEXt \<and> chunkType c \<noteq> type_iTXt"
    and entries: "entries \<noteq> []" "distinct (map fst entries)"
      "\<forall>e\<in>set entries. asciiKeyword (fst e) \<and> asciiText (snd e) \<and> fst e \<noteq> proto_key
         \<and> length (fst e) + length (snd e) + 1 < 2 ^ 31"
  shows "\<exists>m. decodeAfterEncode (sig @ chunkStream (pre @ idat # post)) entries st
                = Some (Some m, st\<lparr>originalImageFormat := Png\<rparr>)
              \<and> map_of m = map_of entries"
proof -
  let ?new = "map textChunk entries"
  let ?out = "sig @ chunkStream (pre @ ?new) @ chunkStream (idat # post)"
  have inj: "injectPngMetadata (sig @ chunkStream (pre @ idat # post)) (Some entries) = Some ?out"
    using inject_layout [of sig pre idat entries "chunkStream post"] sig(1) pre idat entries(1)
    by (simp add: chunkStream_append chunkStream_Cons)
  have front: "\<forall>c\<in>set (pre @ ?new). wellFormed c \<and> chunkType c \<noteq> type_IEND"
  proof
    fix c assume "c \<in> set (pre @ ?new)"
    then consider "c \<in> set pre" | e where "e \<in> set entries" "c = textChunk e" by auto
    then show "wellFormed c \<and> chunkType c \<noteq> type_IEND"
    proof cases
      case 1 then show ?thesis using pre by simp
    next
      case 2
      then have "wellFormed c" using entries(3) by (simp add: textChunk_wellFormed)
      moreover have "chunkType c \<noteq> type_IEND" using 2 by (simp add: textChunk_def type_tEXt_def type_IEND_def)
      ultimately show ?thesis by simp
    qed
  qed
  have behind: "\<forall>c\<in>set (idat # post). wellFormed c \<and> chunkType c \<noteq> type_tEXt \<and> chunkType c \<noteq> type_iTXt"
    using idat post by (simp add: type_IDAT_def type_tEXt_def type_iTXt_def)
  have "foldl absorb [] (pre @ ?new) = foldl absorb (foldl absorb [] pre) ?new" by simp
  also have "foldl absorb [] pre = []" using pre by (simp add: absorb_others)
  also have "foldl absorb [] ?new = [] @ entries"
    using entries(2,3) by (intro absorb_entries) simp_all
  finally have folded: "foldl absorb [] (pre @ ?new) = entries" by simp
  have "chunkWalk ?out (int (length sig)) []
          = chunkWalk ?out (int (length (sig @ chunkStream (pre @ ?new)))) (foldl absorb [] (pre @ ?new))"
    using front by (rule chunkWalk_chunks)
  also have "\<dots> = chunkWalk ((sig @ chunkStream (pre @ ?new)) @ chunkStream (idat # post))
                      (int (length (sig @ chunkStream (pre @ ?new)))) entries"
    unfolding folded by simp
  also have "\<dots> = Some entries"
    using behind by (rule chunkWalk_tail)
  finally have walk: "chunkWalk ?out 8 [] = Some entries" using sig(1) by simp
  have "take 4 ?out = [0x89, 0x50, 0x4E, 0x47]" using sig by simp
  from extract_walk [OF this walk]
  have "extractPngMetadata ?out st = Some (Some entries, st\<lparr>originalImageFormat := Png\<rparr>)"
    using entries(1) by simp
  with inj show ?thesis by (simp add: decodeAfterEncode_def)
qed

lemma sample_entries_ok:
  "\<forall>e\<in>set sampleEntries. asciiKeyword (fst e) \<and> asciiText (snd e) \<and> fst e \<noteq> proto_key
     \<and> length (fst e) + length (snd e) + 1 < 2 ^ 31"
  by (simp add: sampleEntries_def asciiKeyword_def asciiText_def proto_key_def)

theorem png_text_round_trip_witness:
  "length png_signature = 8 \<and> take 4 png_signature = [0x89, 0x50, 0x4E, 0x47]
   \<and> wellFormed tinyIHDR \<and> wellFormed tinyIDAT \<and> wellFormed tinyIEND
   \<and> chunkType tinyIDAT = type_IDAT \<and> sampleEntries \<noteq> [] \<and> distinct (map fst sampleEntries)
   \<and> (\<exists>m. decodeAfterEncode tinyPng sampleEntries emptyStore
              = Some (Some m, emptyStore\<lparr>originalImageFormat := Png\<rparr>)
            \<and> map_of m = map_of sampleEntries)"
proof -
  have s1: "length png_signature = 8" and s2: "take 4 png_signature = [0x89, 0x50, 0x4E, 0x47]"
    by (simp_all add: png_signature_def)
  have a: "\<forall>c\<in>set [tinyIHDR]. wellFormed c \<and> chunkType c \<noteq> type_IDAT \<and> chunkType c \<noteq> type_IEND
             \<and> chunkType c \<noteq> type_tEXt \<and> chunkType c \<noteq> type_iTXt"
    by (simp add: tiny_wellFormed)
       (simp add: tinyIHDR_def type_IDAT_def type_IEND_def type_tEXt_def type_iTXt_def)
  have i1: "wellFormed tinyIDAT" by (simp add: tiny_wellFormed)
  have i2: "chunkType tinyIDAT = type_IDAT" by (simp add: tinyIDAT_def type_IDAT_def)
  have b: "\<forall>c\<in>set [tinyIEND]. wellFormed c \<and> chunkType c \<noteq> type_tEXt \<and> chunkType c \<noteq> type_iTXt"
    by (simp add: tiny_wellFormed) (simp add: tinyIEND_def type_tEXt_def type_iTXt_def)
  have e1: "sampleEntries \<noteq> []" and e2: "distinct (map fst sampleEntries)"
    by (simp_all add: sampleEntries_def)
  show ?thesis
    using png_text_round_trip [OF s1 s2 a i1 i2 b e1 e2 sample_entries_ok, of emptyStore]
      s1 s2 tiny_wellFormed i2 e1 e2
    by (simp add: tinyPng_def)
qed

text \<open>
  The claim as stated fails: a buffer that already holds a tEXt chunk C = D gives that
  entry back together with the injected one.
\<close>

theorem png_text_round_trip_counterexample:
  "decodeAfterEncode taggedPng sampleEntries emptyStore
     = Some (Some (commentEntry # sampleEntries), emptyStore\<lparr>originalImageFormat := Png\<rparr>)
   \<and> map_of (commentEntry # sampleEntries) \<noteq> map_of sampleEntries"
proof -
  let ?old = "[tinyIHDR, textChunk commentEntry]"
  let ?mid = "[tinyIHDR] @ map textChunk (commentEntry # sampleEntries)"
  let ?out = "png_signature @ chunkStream ?mid @ chunkStream [tinyIDAT, tinyIEND]"
  have s1: "length png_signature = 8" and s2: "take 4 png_signature = [0x89, 0x50, 0x4E, 0x47]"
    by (simp_all add: png_signature_def)
  have c_ok: "asciiKeyword (fst commentEntry) \<and> asciiText (snd commentEntry)
                \<and> length (fst commentEntry) + length (snd commentEntry) + 1 < 2 ^ 31"
    by (simp add: commentEntry_def asciiKeyword_def asciiText_def)
  have c_wf: "wellFormed (textChunk commentEntry)"
    using c_ok by (simp add: textChunk_wellFormed)
  have all_ok: "\<forall>e\<in>set (commentEntry # sampleEntries). asciiKeyword (fst e) \<and> asciiText (snd e) \<and> fst e \<noteq> proto_key"
    using sample_entries_ok c_ok by (simp add: commentEntry_def proto_key_def)
  have old: "\<forall>c\<in>set ?old. wellFormed c \<and> chunkType c \<noteq> type_IDAT"
    using c_wf tiny_wellFormed
    by (simp add: tinyIHDR_def textChunk_def type_IDAT_def type_tEXt_def)
  have i1: "wellFormed tinyIDAT" by (simp add: tiny_wellFormed)
  have i2: "chunkType tinyIDAT = type_IDAT" by (simp add: tinyIDAT_def type_IDAT_def)
  have e1: "sampleEntries \<noteq> []" by (simp add: sampleEntries_def)
  have "injectPngMetadata (png_signature @ chunkStream ?old @ chunkBytes tinyIDAT @ chunkStream [tinyIEND])
          (Some sampleEntries)
        = Some (png_signature @ chunkStream ?old @ chunkStream (map textChunk sampleEntries)
                @ chunkBytes tinyIDAT @ chunkStream [tinyIEND])"
    using s1 old i1 i2 e1 by (rule inject_layout)
  then have inj: "injectPngMetadata taggedPng (Some sampleEntries) = Some ?out"
    by (simp add: taggedPng_def chunkStream_append chunkStream_Cons chunkStream_def)
  have s_wf: "\<forall>e\<in>set sampleEntries. wellFormed (textChunk e)"
    using sample_entries_ok by (simp add: textChunk_wellFormed)
  have wf: "\<forall>c\<in>set ?mid. wellFormed c"
    using tiny_wellFormed c_wf s_wf by simp
  have ty: "\<forall>c\<in>set ?mid. chunkType c \<noteq> type_IEND"
    by (simp add: tinyIHDR_def textChunk_def type_IEND_def type_tEXt_def)
  have first: "\<forall>c\<in>set ?mid. wellFormed c \<and> chunkType c \<noteq> type_IEND"
    using wf ty by blast
  have rest: "\<forall>c\<in>set [tinyIDAT, tinyIEND]. wellFormed c \<and> chunkType c \<noteq> type_tEXt \<and> chunkType c \<noteq> type_iTXt"
    using tiny_wellFormed by (simp add: tinyIDAT_def tinyIEND_def type_tEXt_def type_iTXt_def)
  have "foldl absorb [] ?mid = foldl absorb (foldl absorb [] [tinyIHDR]) (map textChunk (commentEntry # sampleEntries))"
    by (simp only: foldl_append)
  also have "foldl absorb [] [tinyIHDR] = []"
    by (rule absorb_others) (simp add: tinyIHDR_def type_tEXt_def type_iTXt_def)
  also have "foldl absorb [] (map textChunk (commentEntry # sampleEntries)) = [] @ (commentEntry # sampleEntries)"
    using all_ok by (intro absorb_entries) (simp_all add: commentEntry_def sampleEntries_def)
  finally have folded: "foldl absorb [] ?mid = commentEntry # sampleEntries" by simp
  have "chunkWalk ?out (int (length png_signature)) []
          = chunkWalk ?out (int (length (png_signature @ chunkStream ?mid))) (foldl absorb [] ?mid)"
    using first by (rule chunkWalk_chunks)
  also have "\<dots> = chunkWalk ((png_signature @ chunkStream ?mid) @ chunkStream [tinyIDAT, tinyIEND])
                      (int (length (png_signature @ chunkStream ?mid))) (commentEntry # sampleEntries)"
    unfolding folded by simp
  also have "\<dots> = Some (commentEntry # sampleEntries)"
    using rest by (rule chunkWalk_tail)
  finally have walk: "chunkWalk ?out 8 [] = Some (commentEntry # sampleEntries)" using s1 by simp
  have "take 4 ?out = [0x89, 0x50, 0x4E, 0x47]" using s1 s2 by simp
  from extract_walk [OF this walk, of emptyStore]
  have dec: "extractPngMetadata ?out emptyStore
               = Some (Some (commentEntry # sampleEntries), emptyStore\<lparr>originalImageFormat := Png\<rparr>)"
    by simp
  have "map_of (commentEntry # sampleEntries) [67] \<noteq> map_of sampleEntries [67]"
    by (simp add: commentEntry_def sampleEntries_def)
  then have ne: "map_of (commentEntry # sampleEntries) \<noteq> map_of sampleEntries"
    by (metis (no_types))
  show ?thesis
    using inj dec ne by (simp add: decodeAfterEncode_def)
qed

section \<open>Blob URLs\<close>

lemma rebuild_src: "\<exists>img. displayImg (rebuildImageDOM p) = Some img \<and> src img = []"
  by (simp add: rebuildImageDOM_def Let_def split: option.splits)

lemma rebuild_keeps: "log (rebuildImageDOM p) = log p \<and> liveUrls (rebuildImageDOM p) = liveUrls p"
  by (simp add: rebuildImageDOM_def Let_def)

lemma prologue_blank:
  assumes "displayImg p = Some img" and "src img = []"
  shows "log (setSrcPrologue p) = log p \<and> liveUrls (setSrcPrologue p) = liveUrls p"
  using assms by (simp add: setSrcPrologue_def Let_def)

text \<open>
  Called on an element that still shows a blob URL, \<^verbatim>\<open>setSrc\<close> does revoke it, once.
\<close>

lemma prologue_revokes_bound:
  assumes "displayImg p = Some img" and "take 5 (src img) = ''blob:''"
  shows "revocations (setSrcPrologue p) = revocations p @ [src img]"
  using assms by (auto simp add: setSrcPrologue_def Let_def revokeObjectURL_def revocations_def)

lemma bindAndLoad_keeps:
  "revocations (bindAndLoad h url p) = revocations p \<and> liveUrls (bindAndLoad h url p) = liveUrls p"
  by (simp add: bindAndLoad_def revocations_def split: option.splits)

lemma setSrc_after_prologue:
  assumes "setSrc url skipAuto preserveExif sourceBlob p = Some p'"
  shows "revocations p' = revocations (setSrcPrologue p) \<and> liveUrls p' = liveUrls (setSrcPrologue p)"
proof (cases "preserveExif \<and> \<not> skipAuto \<and> sourceBlob \<noteq> None")
  case True
  with assms obtain result store' where
    "p' = bindAndLoad (Some MetadataOnload) url
            ((setSrcPrologue p)\<lparr>store := store'\<lparr>originalPngMetadata := result\<rparr>,
               log := log (setSrcPrologue p) @ [PngTextExtracted]\<rparr>)"
    by (auto simp add: setSrc_def Let_def split: option.splits)
  then show ?thesis by (simp add: bindAndLoad_keeps) (simp add: revocations_def)
next
  case False
  with assms show ?thesis
    by (auto simp add: setSrc_def Let_def bindAndLoad_keeps split: if_splits)
qed

text \<open>
  Claim C5 fails on the code. Every caller shows a new blob by \<^verbatim>\<open>rebuildImageDOM\<close>
  followed by \<^verbatim>\<open>setSrc\<close>; the first blanks \<^verbatim>\<open>img.src\<close>, so the second finds no blob URL
  to revoke: whatever the page and the arguments, nothing is revoked, and every URL
  that was live stays live next to the new one.
\<close>

theorem showBlob_never_revokes:
  assumes "showBlob url skipAuto preserveExif sourceBlob p = Some p'"
  shows "revocations p' = revocations p \<and> liveUrls p' = liveUrls p @ [url]"
proof -
  let ?q = "createObjectURL url (rebuildImageDOM p)"
  obtain img where img: "displayImg ?q = Some img" "src img = []"
    using rebuild_src [of p] by (auto simp add: createObjectURL_def)
  have "log (setSrcPrologue ?q) = log ?q \<and> liveUrls (setSrcPrologue ?q) = liveUrls ?q"
    using img by (rule prologue_blank)
  moreover have "log ?q = log p \<and> liveUrls ?q = liveUrls p @ [url]"
    using rebuild_keeps [of p] by (simp add: createObjectURL_def)
  moreover have "revocations p' = revocations (setSrcPrologue ?q) \<and> liveUrls p' = liveUrls (setSrcPrologue ?q)"
    using assms unfolding showBlob_def by (rule setSrc_after_prologue)
  ultimately show ?thesis by (simp add: revocations_def)
qed

lemma show_B_over_A: "showBlob ''blob:B'' True False None pageShowingA =
   Some (pageShowingA\<lparr>displayImg := Some \<lparr>src = ''blob:B'', onload = None\<rparr>,
            liveUrls := [''blob:A'', ''blob:B''], log := [SrcAssigned ''blob:B'']\<rparr>)"
  by (simp add: showBlob_def setSrc_def setSrcPrologue_def rebuildImageDOM_def createObjectURL_def
      bindAndLoad_def pageShowingA_def Let_def resetMetadata_def emptyStore_def)

theorem showBlob_never_revokes_witness:
  "showBlob ''blob:B'' True False None pageShowingA =
     Some (pageShowingA\<lparr>displayImg := Some \<lparr>src = ''blob:B'', onload = None\<rparr>,
            liveUrls := [''blob:A'', ''blob:B''], log := [SrcAssigned ''blob:B'']\<rparr>)
   \<and> revocations (pageShowingA\<lparr>displayImg := Some \<lparr>src = ''blob:B'', onload = None\<rparr>,
            liveUrls := [''blob:A'', ''blob:B''], log := [SrcAssigned ''blob:B'']\<rparr>) = revocations pageShowingA
   \<and> liveUrls (pageShowingA\<lparr>displayImg := Some \<lparr>src = ''blob:B'', onload = None\<rparr>,
            liveUrls := [''blob:A'', ''blob:B''], log := [SrcAssigned ''blob:B'']\<rparr>) = liveUrls pageShowingA @ [''blob:B'']"
  using show_B_over_A showBlob_never_revokes [OF show_B_over_A] by simp

section \<open>Order of extraction and transform\<close>

lemma browserRun_append: "browserRun (xs @ ys) p = browserRun ys (browserRun xs p)"
  by (induction xs arbitrary: p) simp_all

lemma prologue_bound:
  "\<exists>img. displayImg (setSrcPrologue p) = Some img \<and> onload img = None"
  by (simp add: setSrcPrologue_def Let_def rebuildImageDOM_def split: option.splits)

lemma prologue_keeps:
  "autoAction (setSrcPrologue p) = autoAction p \<and> awaitingExif (setSrcPrologue p) = awaitingExif p
   \<and> frameCallbacks (setSrcPrologue p) = frameCallbacks p
   \<and> filter isMilestone (log (setSrcPrologue p)) = filter isMilestone (log p)"
  by (simp add: setSrcPrologue_def Let_def rebuildImageDOM_def revokeObjectURL_def split: option.splits)

lemma setSrc_stage:
  assumes "autoAction p = ActionEncrypt" and "log p = []"
    and "frameCallbacks p = []" and "awaitingExif p = 0"
    and "setSrc url False True (Some file) p = Some p1"
  shows "stage 0 p1"
proof -
  from assms(5) obtain result store' where
    p1: "p1 = bindAndLoad (Some MetadataOnload) url
            ((setSrcPrologue p)\<lparr>store := store'\<lparr>originalPngMetadata := result\<rparr>,
               log := log (setSrcPrologue p) @ [PngTextExtracted]\<rparr>)"
    by (auto simp add: setSrc_def Let_def split: option.splits)
  obtain img where img: "displayImg (setSrcPrologue p) = Some img"
    using prologue_bound [of p] by blast
  show ?thesis
    unfolding p1 stage_def milestones_def
    using img prologue_keeps [of p] assms(1-4)
    by (simp add: bindAndLoad_def)
qed

lemma stage_load: "stage 0 q \<Longrightarrow> stage 1 (browserStep LoadFired q)"
  by (auto simp add: stage_def milestones_def loadEvent_def Let_def metadataOnloadStart_def
      split: option.splits onload_handler.splits)

lemma stage_exif:
  assumes "stage k q" and "1 \<le> k"
  shows "\<exists>k'. 2 \<le> k' \<and> k \<le> k' \<and> stage k' (browserStep (ExifResolved r) q)"
proof -
  from assms have "k = 1 \<or> k = 2 \<or> k = 3" by (auto simp add: stage_def)
  then show ?thesis
  proof (elim disjE)
    assume k: "k = 1"
    have "stage 2 (browserStep (ExifResolved r) q)"
      using assms(1) unfolding k
      by (simp add: stage_def milestones_def exifResolved_def metadataOnloadResume_def Let_def
          performImageOperation_def requestAnimationFrame_def)
    then show ?thesis using k by (intro exI [of _ 2]) simp
  next
    assume k: "k = 2"
    have "stage 2 (browserStep (ExifResolved r) q)"
      using assms(1) unfolding k by (simp add: stage_def exifResolved_def)
    then show ?thesis using k by (intro exI [of _ 2]) simp
  next
    assume k: "k = 3"
    have "stage 3 (browserStep (ExifResolved r) q)"
      using assms(1) unfolding k by (simp add: stage_def exifResolved_def)
    then show ?thesis using k by (intro exI [of _ 3]) simp
  qed
qed

lemma stage_frame:
  assumes "stage k q" and "2 \<le> k"
  shows "stage 3 (browserStep FrameTick q)"
proof -
  from assms have "k = 2 \<or> k = 3" by (auto simp add: stage_def)
  then show ?thesis
    using assms(1) by (auto simp add: stage_def milestones_def animationFrame_def)
qed

lemma stage_idle_frame:
  assumes "stage k q" and "k < 2"
  shows "stage k (browserStep FrameTick q)"
  using assms by (auto simp add: stage_def milestones_def animationFrame_def)

lemma stage_idle_exif:
  assumes "stage 0 q"
  shows "stage 0 (browserStep (ExifResolved r) q)"
  using assms by (simp add: stage_def exifResolved_def)

lemma stage_step:
  assumes "e \<noteq> LoadFired" and "stage k q"
  shows "\<exists>k'. k \<le> k' \<and> (k = 0 \<longrightarrow> k' = 0) \<and> stage k' (browserStep e q)"
proof (cases e)
  case LoadFired
  with assms(1) show ?thesis by simp
next
  case (ExifResolved r)
  show ?thesis
  proof (cases "k = 0")
    case True
    then show ?thesis using assms(2) stage_idle_exif [of q r] ExifResolved by auto
  next
    case False
    then have "1 \<le> k" by simp
    from stage_exif [OF assms(2) this, of r] show ?thesis using False ExifResolved by auto
  qed
next
  case FrameTick
  show ?thesis
  proof (cases "k < 2")
    case True
    then show ?thesis using stage_idle_frame [OF assms(2) True] FrameTick by auto
  next
    case False
    then have k: "2 \<le> k" by simp
    moreover have "k \<le> 3" using assms(2) by (simp add: stage_def)
    ultimately show ?thesis using stage_frame [OF assms(2) k] FrameTick by (intro exI [of _ 3]) simp
  qed
qed

lemma stage_run:
  assumes "LoadFired \<notin> set es" and "stage k q"
  shows "\<exists>k'. k \<le> k' \<and> (k = 0 \<longrightarrow> k' = 0) \<and> stage k' (browserRun es q)"
  using assms
proof (induction es arbitrary: k q)
  case Nil
  then show ?case by auto
next
  case (Cons e es)
  from Cons.prems have e: "e \<noteq> LoadFired" and es: "LoadFired \<notin> set es" by auto
  from stage_step [OF e Cons.prems(2)] obtain k1 where
    k1: "k \<le> k1" "k = 0 \<longrightarrow> k1 = 0" "stage k1 (browserStep e q)" by blast
  from Cons.IH [OF es k1(3)] obtain k2 where
    k2: "k1 \<le> k2" "k1 = 0 \<longrightarrow> k2 = 0" "stage k2 (browserRun es (browserStep e q))" by blast
  show ?case using k1 k2 by (intro exI [of _ k2]) auto
qed

lemma stage_milestones:
  "stage k q \<Longrightarrow> milestones q =
     take (Suc k) [PngTextExtracted, DecodeComplete, ExifExtracted, TransformInvoked EncryptAndDisplay]"
  by (simp add: stage_def)

text \<open>
  Claim C3, as the code has it. Take a load with \<open>preserveExif\<close>, without \<open>skipAuto\<close>,
  with a source blob and auto-action encrypt, on a page with nothing pending, for which
  \<^verbatim>\<open>setSrc\<close> returns (the PNG extraction returns). Let the browser deliver the load event
  of the image once, and the answers of the tag reader and animation frames in any
  number and order around it. Then at every moment the events so far are a beginning of:
  PNG text extracted, decode complete, EXIF extracted, transform invoked; so the
  transform is never invoked twice and never before the extractions. Once an answer of
  the tag reader has followed the load event and a frame has followed the answer, all
  four have happened, the transform exactly once.
\<close>

theorem extraction_before_transform:
  assumes "autoAction p = ActionEncrypt" and "log p = []"
    and "frameCallbacks p = []" and "awaitingExif p = 0"
    and "setSrc url False True (Some file) p = Some p1"
    and "LoadFired \<notin> set as" and "LoadFired \<notin> set es"
  shows "(\<exists>k. milestones (browserRun (as @ LoadFired # es) p1) =
            take k [PngTextExtracted, DecodeComplete, ExifExtracted, TransformInvoked EncryptAndDisplay])
         \<and> (es = bs @ ExifResolved r # cs @ FrameTick # ds \<longrightarrow>
              milestones (browserRun (as @ LoadFired # es) p1) =
                [PngTextExtracted, DecodeComplete, ExifExtracted, TransformInvoked EncryptAndDisplay])"
proof -
  let ?q = "browserStep LoadFired (browserRun as p1)"
  have run: "browserRun (as @ LoadFired # es) p1 = browserRun es ?q"
    by (simp add: browserRun_append)
  have s0: "stage 0 p1" using assms(1-5) by (rule setSrc_stage)
  from stage_run [OF assms(6) s0] have "stage 0 (browserRun as p1)" by auto
  then have s1: "stage 1 ?q" by (rule stage_load)
  from stage_run [OF assms(7) s1] obtain k where k: "stage k (browserRun es ?q)" by blast
  have first: "\<exists>k. milestones (browserRun (as @ LoadFired # es) p1) =
            take k [PngTextExtracted, DecodeComplete, ExifExtracted, TransformInvoked EncryptAndDisplay]"
    unfolding run using stage_milestones [OF k] by blast
  have second: "milestones (browserRun (as @ LoadFired # es) p1) =
                [PngTextExtracted, DecodeComplete, ExifExtracted, TransformInvoked EncryptAndDisplay]"
    if split: "es = bs @ ExifResolved r # cs @ FrameTick # ds"
  proof -
    from assms(7) split have nl: "LoadFired \<notin> set bs" "LoadFired \<notin> set cs" "LoadFired \<notin> set ds"
      by auto
    from stage_run [OF nl(1) s1] obtain k1 where
      k1: "1 \<le> k1" "stage k1 (browserRun bs ?q)" by blast
    from stage_exif [OF k1(2) k1(1), of r] obtain k2 where
      k2: "2 \<le> k2" "stage k2 (browserStep (ExifResolved r) (browserRun bs ?q))" by blast
    from stage_run [OF nl(2) k2(2)] obtain k3 where
      k3: "k2 \<le> k3" "stage k3 (browserRun cs (browserStep (ExifResolved r) (browserRun bs ?q)))"
      by blast
    have "2 \<le> k3" using k2(1) k3(1) by simp
    from stage_frame [OF k3(2) this]
    have s3: "stage 3 (browserStep FrameTick
                (browserRun cs (browserStep (ExifResolved r) (browserRun bs ?q))))" .
    from stage_run [OF nl(3) s3] obtain k4 where
      k4: "3 \<le> k4" "stage k4 (browserRun ds (browserStep FrameTick
                (browserRun cs (browserStep (ExifResolved r) (browserRun bs ?q)))))" by blast
    have "k4 = 3" using k4 by (simp add: stage_def)
    with k4(2) have "stage 3 (browserRun es ?q)"
      unfolding split by (simp add: browserRun_append)
    from stage_milestones [OF this] show ?thesis unfolding run by simp
  qed
  from first second show ?thesis by blast
qed

lemma load_jpeg_returns: "setSrc ''blob:A'' False True (Some jpegMagic) freshPage \<noteq> None"
proof -
  have h: "take 4 jpegMagic \<noteq> [0x89, 0x50, 0x4E, 0x47]" by (simp add: jpegMagic_def)
  show ?thesis by (simp add: setSrc_def Let_def extract_mismatch [OF h])
qed

theorem extraction_before_transform_witness:
  "autoAction freshPage = ActionEncrypt \<and> log freshPage = [] \<and> frameCallbacks freshPage = []
   \<and> awaitingExif freshPage = 0
   \<and> map_option milestones (loadWithMetadata ''blob:A'' jpegMagic None freshPage)
       = Some [PngTextExtracted, DecodeComplete, ExifExtracted, TransformInvoked EncryptAndDisplay]"
proof -
  have a: "autoAction freshPage = ActionEncrypt" and l: "log freshPage = []"
    and f: "frameCallbacks freshPage = []" and w: "awaitingExif freshPage = 0"
    by (simp_all add: freshPage_def)
  obtain p1 where p1: "setSrc ''blob:A'' False True (Some jpegMagic) freshPage = Some p1"
    using load_jpeg_returns by blast
  have n: "LoadFired \<notin> set []" "LoadFired \<notin> set [ExifResolved None, FrameTick]" by simp_all
  from extraction_before_transform [OF a l f w p1 n, of "[]" None "[]" "[]"]
  have "milestones (browserRun [LoadFired, ExifResolved None, FrameTick] p1)
          = [PngTextExtracted, DecodeComplete, ExifExtracted, TransformInvoked EncryptAndDisplay]"
    by simp
  then show ?thesis using a l f w p1 by (simp add: loadWithMetadata_def)
qed

text \<open>
  The claim as stated fails: the PNG text is extracted before the image is assigned to
  the element, so before its decode completes, not after it.
\<close>

theorem decode_first_counterexample:
  "map_option milestones
     (loadWithMetadata ''blob:B'' halfSignature (Some [(''Make'', EString ''Canon'')]) freshPage)
     = Some [PngTextExtracted, DecodeComplete, ExifExtracted, TransformInvoked EncryptAndDisplay]
   \<and> map_option milestones
        (loadWithMetadata ''blob:B'' halfSignature (Some [(''Make'', EString ''Canon'')]) freshPage)
     \<noteq> Some [DecodeComplete, PngTextExtracted, ExifExtracted, TransformInvoked EncryptAndDisplay]"
proof -
  have x: "extractPngMetadata halfSignature (resetMetadata emptyStore)
             = Some (None, (resetMetadata emptyStore)\<lparr>originalImageFormat := Png\<rparr>)"
    by (simp add: halfSignature_def extractPngMetadata_def byteAt_def chunkWalk.simps)
  have eq: "map_option milestones
     (loadWithMetadata ''blob:B'' halfSignature (Some [(''Make'', EString ''Canon'')]) freshPage)
     = Some [PngTextExtracted, DecodeComplete, ExifExtracted, TransformInvoked EncryptAndDisplay]"
    by (simp add: loadWithMetadata_def setSrc_def setSrcPrologue_def rebuildImageDOM_def x
        bindAndLoad_def freshPage_def Let_def milestones_def animationFrame_def loadEvent_def
        exifResolved_def metadataOnloadStart_def metadataOnloadResume_def
        performImageOperation_def requestAnimationFrame_def)
  show ?thesis unfolding eq by simp
qed

text \<open>
  The single load event is needed: the handler stays bound while it waits for the tag
  reader, so a second load event in that window starts a second run, and each run
  dispatches the transform.
\<close>

lemma second_load_event_runs_handler_again:
  "map_option milestones
     (map_option (browserRun [LoadFired, LoadFired, ExifResolved None, ExifResolved None, FrameTick])
        (setSrc ''blob:A'' False True (Some jpegMagic) freshPage))
     = Some [PngTextExtracted, DecodeComplete, DecodeComplete, ExifExtracted, ExifExtracted,
             TransformInvoked EncryptAndDisplay, TransformInvoked EncryptAndDisplay]"
proof -
  have h: "take 4 jpegMagic \<noteq> [0x89, 0x50, 0x4E, 0x47]" by (simp add: jpegMagic_def)
  show ?thesis
    by (simp add: setSrc_def setSrcPrologue_def rebuildImageDOM_def extract_mismatch [OF h]
        bindAndLoad_def freshPage_def Let_def milestones_def animationFrame_def loadEvent_def
        exifResolved_def metadataOnloadStart_def metadataOnloadResume_def
        performImageOperation_def requestAnimationFrame_def)
qed

end
